theory Spec2Isabelle
  imports Complex_Main "HOL-Library.Multiset" "HOL-Library.Sublist"
begin

section \<open>Text\<close>

text \<open>
  Python strings are modelled as \<^typ>\<open>string\<close>, one \<^typ>\<open>char\<close> per character; a
  character is read as its code point, so the model covers text in the range U+0000 to
  U+00FF. The three string methods that \<open>parse_due_date\<close> uses are written out for that
  range as CPython defines them.
\<close>

definition code_point :: "char \<Rightarrow> nat" where
  "code_point c = of_char c"

text \<open>\<open>str.isspace\<close> on one character: the characters \<open>str.strip()\<close> removes.\<close>

definition is_space :: "char \<Rightarrow> bool" where
  "is_space c =
     (let n = code_point c
      in (9 \<le> n \<and> n \<le> 13) \<or> (28 \<le> n \<and> n \<le> 32) \<or> n = 133 \<or> n = 160)"

definition strip :: "string \<Rightarrow> string" where
  "strip s = rev (dropWhile is_space (rev (dropWhile is_space s)))"

text \<open>\<open>str.lower\<close> on one character: A-Z, and the upper-case letters of Latin-1.\<close>

definition lower_char :: "char \<Rightarrow> char" where
  "lower_char c =
     (let n = code_point c
      in if (65 \<le> n \<and> n \<le> 90) \<or> (192 \<le> n \<and> n \<le> 222 \<and> n \<noteq> 215)
         then char_of (n + 32) else c)"

definition lower :: "string \<Rightarrow> string" where
  "lower s = map lower_char s"

text \<open>
  \<open>str.isdigit\<close>: true of a non-empty string whose characters all are digits; in this
  range the digits are 0-9 and the superscripts U+00B2, U+00B3, U+00B9.
\<close>

definition ascii_digit :: "char \<Rightarrow> bool" where
  "ascii_digit c = (48 \<le> code_point c \<and> code_point c \<le> 57)"

definition digit_char :: "char \<Rightarrow> bool" where
  "digit_char c = (ascii_digit c \<or> code_point c = 178 \<or> code_point c = 179 \<or> code_point c = 185)"

definition isdigit :: "string \<Rightarrow> bool" where
  "isdigit s = (s \<noteq> [] \<and> list_all digit_char s)"

definition startswith :: "string \<Rightarrow> string \<Rightarrow> bool" where
  "startswith s p = (take (length p) s = p)"

definition endswith :: "string \<Rightarrow> string \<Rightarrow> bool" where
  "endswith s p = (length p \<le> length s \<and> drop (length s - length p) s = p)"

text \<open>The slice \<open>s[1:-1]\<close>.\<close>

definition slice_1_m1 :: "string \<Rightarrow> string" where
  "slice_1_m1 s = butlast (tl s)"

section \<open>Errors\<close>

datatype py_error = OverflowError | ValueError | IndexError

section \<open>Integers from decimal text\<close>

text \<open>
  \<open>int(text)\<close> on a string that passed \<open>isdigit\<close>: the decimal value when every character
  is one of 0-9; ValueError on a superscript digit, and on more than 4300 digits (the
  default limit of CPython on the length of a decimal literal).
\<close>

definition int_max_str_digits :: nat where
  "int_max_str_digits = 4300"

definition digit_value :: "char \<Rightarrow> nat" where
  "digit_value c = code_point c - 48"

definition decimal_value :: "string \<Rightarrow> nat" where
  "decimal_value s = foldl (\<lambda>acc c. 10 * acc + digit_value c) 0 s"

definition py_int :: "string \<Rightarrow> py_error + nat" where
  "py_int s =
     (if s = [] \<or> \<not> list_all ascii_digit s then Inl ValueError
      else if int_max_str_digits < length s then Inl ValueError
      else Inr (decimal_value s))"

section \<open>Calendar dates\<close>

text \<open>
  \<open>datetime.date\<close>: year, month and day of the proleptic Gregorian calendar, years 1 to
  9999. \<open>toordinal\<close>, \<open>fromordinal\<close>, \<open>isoformat\<close> and the addition of a
  \<open>timedelta\<close> follow CPython's datetime module.
\<close>

record date =
  year :: nat
  month :: nat
  day :: nat

definition is_leap :: "nat \<Rightarrow> bool" where
  "is_leap y = (y mod 4 = 0 \<and> (y mod 100 \<noteq> 0 \<or> y mod 400 = 0))"

definition days_in_month :: "nat \<Rightarrow> nat \<Rightarrow> nat" where
  "days_in_month y m =
     (if m = 2 then (if is_leap y then 29 else 28)
      else if m = 4 \<or> m = 6 \<or> m = 9 \<or> m = 11 then 30 else 31)"

definition valid_date :: "date \<Rightarrow> bool" where
  "valid_date d =
     (1 \<le> year d \<and> year d \<le> 9999 \<and> 1 \<le> month d \<and> month d \<le> 12 \<and>
      1 \<le> day d \<and> day d \<le> days_in_month (year d) (month d))"

definition days_before_year :: "nat \<Rightarrow> nat" where
  "days_before_year y =
     (let z = y - 1 in z * 365 + z div 4 - z div 100 + z div 400)"

text \<open>The table \<open>_DAYS_BEFORE_MONTH\<close>, for a year that is not a leap year.\<close>

definition days_before_month_table :: "nat list" where
  "days_before_month_table = [0, 0, 31, 59, 90, 120, 151, 181, 212, 243, 273, 304, 334]"

definition days_before_month :: "nat \<Rightarrow> nat \<Rightarrow> nat" where
  "days_before_month y m =
     days_before_month_table ! m + (if 2 < m \<and> is_leap y then 1 else 0)"

definition toordinal :: "date \<Rightarrow> nat" where
  "toordinal d = days_before_year (year d) + days_before_month (year d) (month d) + day d"

definition max_ordinal :: nat where
  "max_ordinal = 3652059"

text \<open>\<open>_ord2ymd\<close>, for an ordinal of at least 1.\<close>

definition fromordinal :: "nat \<Rightarrow> date" where
  "fromordinal n =
     (let n0 = n - 1;
          n400 = n0 div 146097; r400 = n0 mod 146097;
          n100 = r400 div 36524; r100 = r400 mod 36524;
          n4 = r100 div 1461; r4 = r100 mod 1461;
          n1 = r4 div 365; r = r4 mod 365;
          y = n400 * 400 + 1 + n100 * 100 + n4 * 4 + n1
      in if n1 = 4 \<or> n100 = 4 then \<lparr>year = y - 1, month = 12, day = 31\<rparr>
         else
           let leapyear = (n1 = 3 \<and> (n4 \<noteq> 24 \<or> n100 = 3));
               m = (r + 50) div 32;
               preceding = days_before_month_table ! m + (if 2 < m \<and> leapyear then 1 else 0)
           in if r < preceding
              then let m' = m - 1;
                       preceding' = preceding -
                         (days_in_month 1 m' + (if m' = 2 \<and> leapyear then 1 else 0))
                   in \<lparr>year = y, month = m', day = r - preceding' + 1\<rparr>
              else \<lparr>year = y, month = m, day = r - preceding + 1\<rparr>)"

text \<open>
  \<open>today + timedelta(days=n)\<close> for n \<ge> 0: building the timedelta raises OverflowError
  above 999999999 days, and the addition raises it when the date leaves the calendar.
\<close>

definition max_delta_days :: nat where
  "max_delta_days = 999999999"

definition add_days :: "date \<Rightarrow> nat \<Rightarrow> py_error + date" where
  "add_days d n =
     (if max_delta_days < n then Inl OverflowError
      else if max_ordinal < toordinal d + n then Inl OverflowError
      else Inr (fromordinal (toordinal d + n)))"

text \<open>Decimal digits of a number, padded with zeros to a width: \<open>"%04d"\<close>, \<open>"%02d"\<close>.\<close>

definition digit_chars :: string where
  "digit_chars = ''0123456789''"

function show_nat :: "nat \<Rightarrow> string" where
  "show_nat n =
     (if n < 10 then [digit_chars ! n]
      else show_nat (n div 10) @ [digit_chars ! (n mod 10)])"
  by pat_completeness auto
termination
  by (relation "measure id") auto

declare show_nat.simps [simp del]

definition zero_pad :: "nat \<Rightarrow> nat \<Rightarrow> string" where
  "zero_pad w n = replicate (w - length (show_nat n)) (CHR ''0'') @ show_nat n"

definition isoformat :: "date \<Rightarrow> string" where
  "isoformat d = zero_pad 4 (year d) @ ''-'' @ zero_pad 2 (month d) @ ''-'' @ zero_pad 2 (day d)"

section \<open>Date parsing\<close>

text \<open>
  \<open>parse_due_date\<close>. The two things it takes from its environment are parameters:
  \<open>today\<close> is what \<open>date.today()\<close> returns, and \<open>parse\<close> is
  \<open>date_parser.parse(s).date()\<close> of the dateutil library, \<open>None\<close> when it raises.
  The result is the returned string, or the exception that leaves the function: only the
  last rule is inside the \<open>try\<close>.
\<close>

definition parse_due_date :: "date \<Rightarrow> (string \<rightharpoonup> date) \<Rightarrow> string \<Rightarrow> py_error + string" where
  "parse_due_date today parse s0 =
     (let s = lower (strip s0)
      in if s = [] then Inr []
         else if s = ''today'' then Inr (isoformat today)
         else if s = ''tomorrow'' then
           (case add_days today 1 of Inl e \<Rightarrow> Inl e | Inr d \<Rightarrow> Inr (isoformat d))
         else if startswith s ''+'' \<and> endswith s ''d'' \<and> isdigit (slice_1_m1 s) then
           (case py_int (slice_1_m1 s) of Inl e \<Rightarrow> Inl e
            | Inr n \<Rightarrow> (case add_days today n of Inl e \<Rightarrow> Inl e | Inr d \<Rightarrow> Inr (isoformat d)))
         else if startswith s ''+'' \<and> endswith s ''w'' \<and> isdigit (slice_1_m1 s) then
           (case py_int (slice_1_m1 s) of Inl e \<Rightarrow> Inl e
            | Inr n \<Rightarrow> (case add_days today (7 * n) of Inl e \<Rightarrow> Inl e | Inr d \<Rightarrow> Inr (isoformat d)))
         else (case parse s of Some d \<Rightarrow> Inr (isoformat d) | None \<Rightarrow> Inr s))"

section \<open>The table of todos\<close>

text \<open>
  A row of the table \<open>todos\<close>. The columns \<open>done\<close> and \<open>deleted\<close> are integers, as
  the schema declares them; the program writes only 0 and 1 there. The text columns hold
  strings: the program never inserts NULL. The identity is an integer; the model does not cover
  a table that has used up the identities of 64 bits.
\<close>

record todo =
  todo_id :: int
  todo_title :: string
  todo_category :: string
  todo_due :: string
  todo_done :: int
  todo_deleted :: int

text \<open>
  The state behind the connection \<open>con\<close> is the list of the rows of the table. The
  primary key makes the identities of the rows distinct.
\<close>

type_synonym store = "todo list"

definition wf_store :: "store \<Rightarrow> bool" where
  "wf_store con = distinct (map todo_id con)"

text \<open>
  The identity SQLite gives to an inserted row of a table whose primary key is an
  INTEGER PRIMARY KEY: 1 in an empty table, else one more than the largest identity in
  use.
\<close>

definition next_id :: "store \<Rightarrow> int" where
  "next_id con = (if con = [] then 1 else Max (set (map todo_id con)) + 1)"

definition add_todo ::
  "date \<Rightarrow> (string \<rightharpoonup> date) \<Rightarrow> store \<Rightarrow> string \<Rightarrow> string \<Rightarrow> string \<Rightarrow> py_error + store" where
  "add_todo today parse con title category due =
     (case parse_due_date today parse due of
        Inl e \<Rightarrow> Inl e
      | Inr d \<Rightarrow> Inr (con @ [\<lparr>todo_id = next_id con, todo_title = title,
                               todo_category = category, todo_due = d,
                               todo_done = 0, todo_deleted = 0\<rparr>]))"

text \<open>
  Binding a Python integer to a parameter of a statement raises OverflowError when the
  integer does not fit the 64 bits of an SQLite integer.
\<close>

definition sqlite_integer :: "int \<Rightarrow> bool" where
  "sqlite_integer i = (- (2 ^ 63) \<le> i \<and> i < 2 ^ 63)"

definition mark_done :: "store \<Rightarrow> int \<Rightarrow> py_error + store" where
  "mark_done con tid =
     (if sqlite_integer tid
      then Inr (map (\<lambda>r. if todo_id r = tid then r\<lparr>todo_done := 1\<rparr> else r) con)
      else Inl OverflowError)"

definition delete_todo :: "store \<Rightarrow> int \<Rightarrow> py_error + store" where
  "delete_todo con tid =
     (if sqlite_integer tid
      then Inr (map (\<lambda>r. if todo_id r = tid then r\<lparr>todo_deleted := 1\<rparr> else r) con)
      else Inl OverflowError)"

text \<open>
  A sequence of calls of the three functions that write the table, as \<open>main\<close> issues
  them. A call that raises leaves the table as it was.
\<close>

datatype call =
    Call_add_todo date "string \<rightharpoonup> date" string string string
  | Call_mark_done int
  | Call_delete_todo int

fun table_after :: "store \<Rightarrow> call \<Rightarrow> store" where
  "table_after con (Call_add_todo today parse title category due) =
     (case add_todo today parse con title category due of Inl e \<Rightarrow> con | Inr con' \<Rightarrow> con')"
| "table_after con (Call_mark_done tid) =
     (case mark_done con tid of Inl e \<Rightarrow> con | Inr con' \<Rightarrow> con')"
| "table_after con (Call_delete_todo tid) =
     (case delete_todo con tid of Inl e \<Rightarrow> con | Inr con' \<Rightarrow> con')"

definition table_after_all :: "store \<Rightarrow> call list \<Rightarrow> store" where
  "table_after_all con cs = foldl table_after con cs"

subsection \<open>The WHERE clause of the dashboard\<close>

text \<open>
  \<open>main\<close> passes three pairs \<open>(where_clause, params)\<close>: the empty clause,
  \<open>"AND category=?"\<close> with a category, \<open>"AND title LIKE ?"\<close> with a pattern.
\<close>

datatype where_clause = NoClause | CategoryEq string | TitleLike string

text \<open>
  The LIKE operator of SQLite: \<open>%\<close> in the pattern stands for any run of characters,
  \<open>_\<close> for any one character, and every other character for itself, the letters A-Z
  and a-z without regard to case.
\<close>

definition sqlite_lower :: "char \<Rightarrow> char" where
  "sqlite_lower c =
     (let n = code_point c in if 65 \<le> n \<and> n \<le> 90 then char_of (n + 32) else c)"

text \<open>The characters that \<open>sqlite_lower\<close> identifies in pairs: the letters A-Z and a-z.\<close>

definition ascii_letter :: "char \<Rightarrow> bool" where
  "ascii_letter c =
     ((65 \<le> code_point c \<and> code_point c \<le> 90) \<or> (97 \<le> code_point c \<and> code_point c \<le> 122))"

fun like :: "string \<Rightarrow> string \<Rightarrow> bool" where
  "like [] t = (t = [])"
| "like (p # ps) [] = (p = CHR ''%'' \<and> like ps [])"
| "like (p # ps) (c # cs) =
     (if p = CHR ''%'' then like ps (c # cs) \<or> like (p # ps) cs
      else (p = CHR ''_'' \<or> sqlite_lower p = sqlite_lower c) \<and> like ps cs)"

text \<open>
  SQLite's LIKE reads the pattern and the text as C strings, each up to its first U+0000.
\<close>

definition c_string :: "string \<Rightarrow> string" where
  "c_string s = takeWhile (\<lambda>c. c \<noteq> CHR 0x00) s"

text \<open>
  The length of a string in UTF-8, in bytes, for code points up to U+00FF. A statement
  whose LIKE pattern is longer than 50000 bytes fails (\<open>LIKE or GLOB pattern too complex\<close>);
  the listings and the counts are modelled for a pattern within that limit.
\<close>

definition utf8_length :: "string \<Rightarrow> nat" where
  "utf8_length s = sum_list (map (\<lambda>c. if code_point c < 128 then 1 else 2) s)"

definition like_pattern_limit :: nat where
  "like_pattern_limit = 50000"

fun matches :: "where_clause \<Rightarrow> todo \<Rightarrow> bool" where
  "matches NoClause r = True"
| "matches (CategoryEq cat) r = (todo_category r = cat)"
| "matches (TitleLike pat) r = like (c_string pat) (c_string (todo_title r))"

text \<open>\<open>ORDER BY id DESC\<close>.\<close>

definition order_by_id_desc :: "todo list \<Rightarrow> todo list" where
  "order_by_id_desc rows = sort_key (\<lambda>r. - todo_id r) rows"

definition get_stats :: "store \<Rightarrow> where_clause \<Rightarrow> nat \<times> nat" where
  "get_stats con wc =
     (length [r \<leftarrow> con. todo_deleted r = 0 \<and> matches wc r],
      length [r \<leftarrow> con. todo_done r = 1 \<and> todo_deleted r = 0 \<and> matches wc r])"

text \<open>
  \<open>draw_dashboard\<close> and \<open>draw_completed\<close>: the rows their query fetches, which are the
  rows they draw; \<open>draw_dashboard\<close> returns them. Only the identity of a fetched row is
  read by \<open>main\<close>, so a fetched row is kept whole. Drawing itself is not modelled.
\<close>

definition draw_dashboard :: "store \<Rightarrow> where_clause \<Rightarrow> todo list" where
  "draw_dashboard con wc =
     order_by_id_desc [r \<leftarrow> con. todo_deleted r = 0 \<and> todo_done r = 0 \<and> matches wc r]"

definition draw_completed :: "store \<Rightarrow> todo list" where
  "draw_completed con =
     order_by_id_desc [r \<leftarrow> con. todo_deleted r = 0 \<and> todo_done r = 1]"

section \<open>The progress percentage\<close>

text \<open>
  \<open>int((done / total) * 100)\<close> is computed in binary floating point: \<open>done / total\<close> is
  the quotient rounded to the nearest binary64 number (ties to even), the product with 100
  is rounded again, and \<open>int\<close> truncates. A non-negative binary64 number is modelled as a
  pair \<open>(m, e)\<close> that stands for \<open>m * 2 ^ e\<close>, with 53 bits of precision. The numbers
  met here lie between \<open>2 ^ - 64\<close> and 100, so the exponent range of binary64 plays no role.
\<close>

type_synonym binary64 = "nat \<times> int"

fun bit_length :: "nat \<Rightarrow> nat" where
  "bit_length n = (if n = 0 then 0 else Suc (bit_length (n div 2)))"

declare bit_length.simps [simp del]

text \<open>The fraction \<open>a * 2 ^ k / b\<close> as a numerator and a denominator.\<close>

definition scale2 :: "nat \<Rightarrow> nat \<Rightarrow> int \<Rightarrow> nat \<times> nat" where
  "scale2 a b k = (if 0 \<le> k then (a * 2 ^ nat k, b) else (a, b * 2 ^ nat (- k)))"

text \<open>The integer nearest to \<open>a / b\<close>, the even one of two that are equally near.\<close>

definition round_half_even :: "nat \<Rightarrow> nat \<Rightarrow> nat" where
  "round_half_even a b =
     (let q = a div b; r = a mod b
      in if 2 * r < b then q else if b < 2 * r then q + 1
         else if even q then q else q + 1)"

text \<open>\<open>\<lfloor>log\<^sub>2 (a / b)\<rfloor>\<close> for positive \<open>a\<close> and \<open>b\<close>.\<close>

definition floor_log2 :: "nat \<Rightarrow> nat \<Rightarrow> int" where
  "floor_log2 a b =
     (let d = int (bit_length a) - int (bit_length b)
      in case scale2 a b (- d) of (a', b') \<Rightarrow> if b' \<le> a' then d else d - 1)"

text \<open>The binary64 number nearest to \<open>a / b\<close>.\<close>

definition round_binary64 :: "nat \<Rightarrow> nat \<Rightarrow> binary64" where
  "round_binary64 a b =
     (if a = 0 then (0, 0)
      else let e = floor_log2 a b
           in case scale2 a b (52 - e) of (a', b') \<Rightarrow> (round_half_even a' b', e - 52))"

definition float_div :: "nat \<Rightarrow> nat \<Rightarrow> binary64" where
  "float_div a b = round_binary64 a b"

definition float_mul :: "binary64 \<Rightarrow> nat \<Rightarrow> binary64" where
  "float_mul x k =
     (case x of (m, e) \<Rightarrow> case scale2 (m * k) 1 e of (a, b) \<Rightarrow> round_binary64 a b)"

definition float_int :: "binary64 \<Rightarrow> nat" where
  "float_int x = (case x of (m, e) \<Rightarrow> case scale2 m 1 e of (a, b) \<Rightarrow> a div b)"

definition progress :: "nat \<Rightarrow> nat \<Rightarrow> nat" where
  "progress n_total n_done =
     (if n_total \<noteq> 0 then float_int (float_mul (float_div n_done n_total) 100) else 0)"

definition dashboard_progress :: "store \<Rightarrow> where_clause \<Rightarrow> nat" where
  "dashboard_progress con wc = (case get_stats con wc of (n_total, n_done) \<Rightarrow> progress n_total n_done)"

section \<open>The main loop\<close>

datatype view = Dashboard | Completed

record state =
  view :: view
  cursor_idx :: int
  where_clause :: where_clause
  subtitle :: string
  db :: store

text \<open>
  What \<open>getch\<close> returns, by the branch of \<open>main\<close> it selects; a key that makes \<open>main\<close>
  prompt carries the lines that \<open>getstr\<close> then returns, decoded.
\<close>

datatype key =
    KEY_UP | KEY_DOWN | Key_q
  | Key_a string string string
  | Key_d | Key_x | Key_c
  | Key_f string
  | Key_slash string
  | Key_b | Key_other

text \<open>\<open>xs[i]\<close>: an index below zero counts from the end, one out of range raises.\<close>

definition py_index :: "'a list \<Rightarrow> int \<Rightarrow> py_error + 'a" where
  "py_index xs i =
     (let n = int (length xs); j = (if i < 0 then i + n else i)
      in if 0 \<le> j \<and> j < n then Inr (xs ! nat j) else Inl IndexError)"

datatype loop_result = Next state | Break | Raise py_error

definition initial :: "store \<Rightarrow> state" where
  "initial con =
     \<lparr>view = Dashboard, cursor_idx = 0, where_clause = NoClause, subtitle = [], db = con\<rparr>"

text \<open>One turn of the \<open>while\<close> loop, from the drawing of the view to the end of the body.\<close>

definition loop_body :: "date \<Rightarrow> (string \<rightharpoonup> date) \<Rightarrow> state \<Rightarrow> key \<Rightarrow> loop_result" where
  "loop_body today parse s ch =
     (let todos = (if view s = Dashboard then draw_dashboard (db s) (where_clause s) else [])
      in if ch = Key_q then Break
         else if view s = Dashboard then
           (if ch = KEY_UP \<and> todos \<noteq> [] then
              Next (s\<lparr>cursor_idx := (cursor_idx s - 1) mod int (length todos)\<rparr>)
            else if ch = KEY_DOWN \<and> todos \<noteq> [] then
              Next (s\<lparr>cursor_idx := (cursor_idx s + 1) mod int (length todos)\<rparr>)
            else case ch of
              Key_a title category due \<Rightarrow>
                (case add_todo today parse (db s) title category due of
                   Inl e \<Rightarrow> Raise e
                 | Inr con' \<Rightarrow>
                     Next (s\<lparr>db := con', cursor_idx := 0, where_clause := NoClause,
                              subtitle := []\<rparr>))
            | Key_d \<Rightarrow>
                (if todos \<noteq> [] then
                   (case py_index todos (cursor_idx s) of
                      Inl e \<Rightarrow> Raise e
                    | Inr t \<Rightarrow>
                        (case mark_done (db s) (todo_id t) of
                           Inl e \<Rightarrow> Raise e
                         | Inr con' \<Rightarrow> Next (s\<lparr>db := con', cursor_idx := 0\<rparr>)))
                 else Next s)
            | Key_x \<Rightarrow>
                (if todos \<noteq> [] then
                   (case py_index todos (cursor_idx s) of
                      Inl e \<Rightarrow> Raise e
                    | Inr t \<Rightarrow>
                        (case delete_todo (db s) (todo_id t) of
                           Inl e \<Rightarrow> Raise e
                         | Inr con' \<Rightarrow> Next (s\<lparr>db := con', cursor_idx := 0\<rparr>)))
                 else Next s)
            | Key_c \<Rightarrow> Next (s\<lparr>view := Completed\<rparr>)
            | Key_f cat \<Rightarrow>
                (if cat \<noteq> [] then
                   Next (s\<lparr>where_clause := CategoryEq cat,
                            subtitle := ''Filtered by #'' @ cat, cursor_idx := 0\<rparr>)
                 else Next s)
            | Key_slash query \<Rightarrow>
                (if query \<noteq> [] then
                   Next (s\<lparr>where_clause := TitleLike (''%'' @ query @ ''%''),
                            subtitle := ''Search results for '' @ [CHR 0x27] @ query @ [CHR 0x27],
                            cursor_idx := 0\<rparr>)
                 else Next s)
            | Key_b \<Rightarrow> Next (s\<lparr>where_clause := NoClause, subtitle := [], cursor_idx := 0\<rparr>)
            | _ \<Rightarrow> Next s)
         else (if ch = Key_b then Next (s\<lparr>view := Dashboard, cursor_idx := 0\<rparr>) else Next s))"

text \<open>
  The loop over the keys typed so far, each with the date and the date parser of its
  moment: \<open>Next s\<close> when the loop waits for the next key in state \<open>s\<close>.
\<close>

type_synonym event = "date \<times> (string \<rightharpoonup> date) \<times> key"

fun main_loop :: "state \<Rightarrow> event list \<Rightarrow> loop_result" where
  "main_loop s [] = Next s"
| "main_loop s ((today, parse, ch) # evs) =
     (case loop_body today parse s ch of
        Next s' \<Rightarrow> main_loop s' evs
      | Break \<Rightarrow> Break
      | Raise e \<Rightarrow> Raise e)"

section \<open>Sample data\<close>

definition day_2025_01_10 :: date where
  "day_2025_01_10 = \<lparr>year = 2025, month = 1, day = 10\<rparr>"

definition rowA :: todo where
  "rowA = \<lparr>todo_id = 1, todo_title = ''A'', todo_category = ''work'',
            todo_due = ''2025-01-10'', todo_done = 0, todo_deleted = 0\<rparr>"

definition rowB :: todo where
  "rowB = \<lparr>todo_id = 2, todo_title = ''B'', todo_category = ''home'',
            todo_due = ''2025-01-11'', todo_done = 0, todo_deleted = 0\<rparr>"

definition rowD :: todo where
  "rowD = \<lparr>todo_id = 3, todo_title = ''D'', todo_category = ''work'',
            todo_due = [], todo_done = 0, todo_deleted = 1\<rparr>"

definition row1 :: todo where
  "row1 = \<lparr>todo_id = 4, todo_title = ''call 911'', todo_category = [],
            todo_due = [], todo_done = 0, todo_deleted = 0\<rparr>"

definition row_milk :: todo where
  "row_milk = \<lparr>todo_id = 5, todo_title = ''Buy milk'', todo_category = ''home'',
                todo_due = [], todo_done = 0, todo_deleted = 0\<rparr>"

text \<open>A table of fifty rows, none deleted, the first 29 done.\<close>

definition plain_todo :: "int \<Rightarrow> nat \<Rightarrow> todo" where
  "plain_todo d i = \<lparr>todo_id = int i, todo_title = ''task'', todo_category = [], todo_due = [],
                     todo_done = d, todo_deleted = 0\<rparr>"

definition fifty_todos :: store where
  "fifty_todos = map (plain_todo 1) [1..<30] @ map (plain_todo 0) [30..<51]"

section \<open>The listings\<close>

lemma order_by_id_desc_mset: "mset (order_by_id_desc rows) = mset rows"
  by (simp add: order_by_id_desc_def)

lemma order_by_id_desc_set: "set (order_by_id_desc rows) = set rows"
  by (simp add: order_by_id_desc_def)

lemma order_by_id_desc_length: "length (order_by_id_desc rows) = length rows"
  by (simp add: order_by_id_desc_def)

lemma order_by_id_desc_sorted:
  "sorted_wrt (\<lambda>a b. todo_id b \<le> todo_id a) (order_by_id_desc rows)"
proof -
  have "sorted (map (\<lambda>r. - todo_id r) (order_by_id_desc rows))"
    unfolding order_by_id_desc_def by (rule sorted_sort_key)
  then show ?thesis by (simp add: sorted_map)
qed

lemma order_by_id_desc_distinct:
  "distinct (map todo_id rows) \<Longrightarrow> distinct (map todo_id (order_by_id_desc rows))"
  by (simp add: order_by_id_desc_def distinct_map)

lemma descending_strict:
  "sorted_wrt (\<lambda>a b. todo_id b \<le> todo_id a) xs \<Longrightarrow> distinct (map todo_id xs) \<Longrightarrow>
   sorted_wrt (\<lambda>a b. todo_id b < todo_id a) xs"
proof (induction xs)
  case Nil
  then show ?case by simp
next
  case (Cons a xs)
  have "todo_id b < todo_id a" if "b \<in> set xs" for b
  proof -
    from Cons.prems(1) that have "todo_id b \<le> todo_id a" by simp
    moreover have "todo_id b \<noteq> todo_id a"
    proof
      assume "todo_id b = todo_id a"
      with that have "todo_id a \<in> set (map todo_id xs)" by (metis image_eqI set_map)
      with Cons.prems(2) show False by simp
    qed
    ultimately show ?thesis by simp
  qed
  with Cons show ?case by simp
qed

lemma order_by_id_desc_strict:
  assumes "distinct (map todo_id rows)"
  shows "sorted_wrt (\<lambda>a b. todo_id b < todo_id a) (order_by_id_desc (filter P rows))"
proof -
  from assms have "distinct (map todo_id (filter P rows))"
    by (simp add: distinct_map_filter)
  then have "distinct (map todo_id (order_by_id_desc (filter P rows)))"
    by (rule order_by_id_desc_distinct)
  with order_by_id_desc_sorted show ?thesis
    by (rule descending_strict)
qed

lemma listings_select:
  "mset (draw_dashboard con wc) =
     filter_mset (\<lambda>r. todo_deleted r = 0 \<and> todo_done r = 0 \<and> matches wc r) (mset con)
   \<and> sorted_wrt (\<lambda>a b. todo_id b \<le> todo_id a) (draw_dashboard con wc)
   \<and> mset (draw_completed con) =
     filter_mset (\<lambda>r. todo_deleted r = 0 \<and> todo_done r = 1) (mset con)
   \<and> sorted_wrt (\<lambda>a b. todo_id b \<le> todo_id a) (draw_completed con)
   \<and> (wf_store con \<longrightarrow>
        sorted_wrt (\<lambda>a b. todo_id b < todo_id a) (draw_dashboard con wc) \<and>
        sorted_wrt (\<lambda>a b. todo_id b < todo_id a) (draw_completed con))"
  unfolding draw_dashboard_def draw_completed_def wf_store_def
  by (simp add: order_by_id_desc_mset order_by_id_desc_sorted order_by_id_desc_strict)

section \<open>Marking and deleting\<close>

lemma update_rows_twice:
  assumes "\<And>r. todo_id (f r) = todo_id r" and "\<And>r. f (f r) = f r"
  shows "map (\<lambda>r. if todo_id r = t then f r else r)
           (map (\<lambda>r. if todo_id r = t then f r else r) con)
         = map (\<lambda>r. if todo_id r = t then f r else r) con"
  using assms by (induction con) auto

lemma update_rows_absent:
  "t \<notin> todo_id ` set con \<Longrightarrow> map (\<lambda>r. if todo_id r = t then f r else r) con = con"
  by (induction con) auto

text \<open>
  C5. For an identity \<open>t\<close> (an SQLite integer) and any table, \<open>mark_done\<close> and
  \<open>delete_todo\<close> return without raising; a second call leaves the table as the first
  left it; and when no row has the identity \<open>t\<close> the table is unchanged.
\<close>

theorem mark_done_delete_todo_idempotent:
  assumes "sqlite_integer t"
  shows "(\<exists>con1. mark_done con t = Inr con1 \<and> mark_done con1 t = Inr con1
            \<and> (t \<notin> todo_id ` set con \<longrightarrow> con1 = con))
       \<and> (\<exists>con2. delete_todo con t = Inr con2 \<and> delete_todo con2 t = Inr con2
            \<and> (t \<notin> todo_id ` set con \<longrightarrow> con2 = con))"
  using assms
  by (simp add: mark_done_def delete_todo_def update_rows_twice update_rows_absent)

theorem mark_done_delete_todo_idempotent_witness:
  "sqlite_integer 7 \<and> 7 \<notin> todo_id ` set [rowA, rowB]
   \<and> mark_done [rowA, rowB] 7 = Inr [rowA, rowB]
   \<and> delete_todo [rowA, rowB] 7 = Inr [rowA, rowB]"
proof -
  have h: "sqlite_integer 7" by (simp add: sqlite_integer_def)
  have n: "7 \<notin> todo_id ` set [rowA, rowB]" by (simp add: rowA_def rowB_def)
  from mark_done_delete_todo_idempotent [OF h, of "[rowA, rowB]"] n h
  show ?thesis by auto
qed

section \<open>Deleted rows\<close>

lemma filter_update_rows:
  assumes "\<And>r. r \<in> set con \<Longrightarrow> todo_id r = t \<Longrightarrow> \<not> P r \<and> \<not> P (f r)"
  shows "filter P (map (\<lambda>r. if todo_id r = t then f r else r) con) = filter P con"
  using assms by (induction con) auto

text \<open>
  C10. When every row with the identity \<open>t\<close> is marked deleted, \<open>mark_done\<close> on \<open>t\<close>
  changes the \<open>done\<close> column of those rows and nothing else, and the rows of the
  dashboard (under every clause), the rows of the completed view and the two counts are
  what they were.
\<close>

theorem mark_done_of_deleted_unobservable:
  assumes "sqlite_integer t"
    and "\<forall>r\<in>set con. todo_id r = t \<longrightarrow> todo_deleted r \<noteq> 0"
  shows "\<exists>con'. mark_done con t = Inr con'
           \<and> draw_dashboard con' wc = draw_dashboard con wc
           \<and> draw_completed con' = draw_completed con
           \<and> get_stats con' wc = get_stats con wc
           \<and> con' = map (\<lambda>r. if todo_id r = t then r\<lparr>todo_done := 1\<rparr> else r) con"
proof -
  let ?con' = "map (\<lambda>r. if todo_id r = t then r\<lparr>todo_done := 1\<rparr> else r) con"
  have m: "mark_done con t = Inr ?con'"
    using assms(1) by (simp add: mark_done_def)
  have f: "filter (\<lambda>r. todo_deleted r = 0 \<and> Q r) ?con'
           = filter (\<lambda>r. todo_deleted r = 0 \<and> Q r) con" for Q
    by (rule filter_update_rows) (use assms(2) in simp)
  have 1: "draw_dashboard ?con' wc = draw_dashboard con wc"
    unfolding draw_dashboard_def by (simp only: f)
  have 2: "draw_completed ?con' = draw_completed con"
    unfolding draw_completed_def by (simp only: f)
  have f': "filter (\<lambda>r. Q r \<and> todo_deleted r = 0 \<and> Q' r) ?con'
            = filter (\<lambda>r. Q r \<and> todo_deleted r = 0 \<and> Q' r) con" for Q Q'
    by (rule filter_update_rows) (use assms(2) in simp)
  have 3: "get_stats ?con' wc = get_stats con wc"
    unfolding get_stats_def by (simp only: f f')
  from m 1 2 3 show ?thesis by blast
qed

theorem mark_done_of_deleted_unobservable_witness:
  "sqlite_integer 3 \<and> todo_id rowD = 3 \<and> todo_deleted rowD \<noteq> 0 \<and> todo_id rowA \<noteq> 3
   \<and> (\<exists>con'. mark_done [rowA, rowD] 3 = Inr con' \<and> get_stats con' NoClause = (1, 0)
         \<and> draw_completed con' = [])"
proof -
  have h: "sqlite_integer 3" by (simp add: sqlite_integer_def)
  have d: "\<forall>r\<in>set [rowA, rowD]. todo_id r = 3 \<longrightarrow> todo_deleted r \<noteq> 0"
    by (simp add: rowA_def rowD_def)
  have g: "get_stats [rowA, rowD] NoClause = (1, 0)"
    by (simp add: get_stats_def rowA_def rowD_def)
  have c: "draw_completed [rowA, rowD] = []"
    by (simp add: draw_completed_def order_by_id_desc_def rowA_def rowD_def)
  have r: "todo_id rowD = 3 \<and> todo_deleted rowD \<noteq> 0 \<and> todo_id rowA \<noteq> 3"
    by (simp add: rowA_def rowD_def)
  from mark_done_of_deleted_unobservable [OF h d, of NoClause] g c h r
  show ?thesis by auto
qed

lemma next_id_above: "r \<in> set con \<Longrightarrow> todo_id r < next_id con"
proof -
  assume r: "r \<in> set con"
  then have "todo_id r \<in> set (map todo_id con)" by simp
  then have "todo_id r \<le> Max (set (map todo_id con))" by (intro Max_ge) auto
  with r show ?thesis by (auto simp: next_id_def)
qed

lemma update_rows_ids:
  assumes "\<And>r. todo_id (f r) = todo_id r"
  shows "todo_id ` set (map (\<lambda>r. if todo_id r = u then f r else r) con) = todo_id ` set con"
proof -
  have "map todo_id (map (\<lambda>r. if todo_id r = u then f r else r) con) = map todo_id con"
    using assms by (induction con) auto
  then have "set (map todo_id (map (\<lambda>r. if todo_id r = u then f r else r) con))
             = set (map todo_id con)"
    by (rule arg_cong)
  then show ?thesis by (simp only: set_map)
qed

lemma update_rows_cases:
  assumes "r \<in> set (map (\<lambda>r. if todo_id r = t then f r else r) con)"
  shows "(\<exists>r0\<in>set con. todo_id r0 = t \<and> r = f r0) \<or> (r \<in> set con \<and> todo_id r \<noteq> t)"
proof -
  from assms obtain r0 where m: "r0 \<in> set con" and r0: "r = (if todo_id r0 = t then f r0 else r0)"
    unfolding set_map by (rule imageE) (rule that)
  show ?thesis
  proof (cases "todo_id r0 = t")
    case True
    from r0 have "r = f r0" unfolding if_P [OF True] .
    with m True show ?thesis by blast
  next
    case False
    from r0 have "r = r0" unfolding if_not_P [OF False] .
    with m False show ?thesis by blast
  qed
qed

lemma delete_marks_rows:
  "\<forall>r\<in>set (map (\<lambda>r. if todo_id r = t then r\<lparr>todo_deleted := 1\<rparr> else r) con).
     todo_id r = t \<longrightarrow> todo_deleted r = 1"
proof (intro ballI impI)
  fix r
  assume "r \<in> set (map (\<lambda>r. if todo_id r = t then r\<lparr>todo_deleted := 1\<rparr> else r) con)"
  then have "(\<exists>r0\<in>set con. todo_id r0 = t \<and> r = r0\<lparr>todo_deleted := 1\<rparr>)
             \<or> (r \<in> set con \<and> todo_id r \<noteq> t)"
    by (rule update_rows_cases)
  moreover assume "todo_id r = t"
  ultimately obtain r0 where "r = r0\<lparr>todo_deleted := 1\<rparr>" by blast
  then show "todo_deleted r = 1" by simp
qed

lemma table_after_keeps_deleted:
  assumes "t \<in> todo_id ` set con"
    and "\<forall>r\<in>set con. todo_id r = t \<longrightarrow> todo_deleted r = 1"
  shows "t \<in> todo_id ` set (table_after con c)
       \<and> (\<forall>r\<in>set (table_after con c). todo_id r = t \<longrightarrow> todo_deleted r = 1)"
proof (cases c)
  case (Call_add_todo today parse title category due)
  from assms(1) obtain r0 where r0: "r0 \<in> set con" "todo_id r0 = t" by blast
  from next_id_above [OF r0(1)] have "t < next_id con" unfolding r0(2) .
  then have fresh: "next_id con \<noteq> t" by linarith
  show ?thesis
  proof (cases "parse_due_date today parse due")
    case (Inl e)
    with assms show ?thesis by (simp add: Call_add_todo add_todo_def)
  next
    case (Inr d)
    then have "table_after con c = con @ [\<lparr>todo_id = next_id con, todo_title = title,
                               todo_category = category, todo_due = d,
                               todo_done = 0, todo_deleted = 0\<rparr>]"
      by (simp add: Call_add_todo add_todo_def)
    with assms fresh show ?thesis by auto
  qed
next
  case (Call_mark_done u)
  have "todo_id ` set (map (\<lambda>r. if todo_id r = u then r\<lparr>todo_done := 1\<rparr> else r) con)
        = todo_id ` set con"
    by (rule update_rows_ids) simp
  with assms(1) have "t \<in> todo_id ` set (table_after con c)"
    by (simp only: Call_mark_done table_after.simps mark_done_def if_split sum.case) simp
  moreover have "\<forall>r\<in>set (table_after con c). todo_id r = t \<longrightarrow> todo_deleted r = 1"
    using assms(2) by (auto simp: Call_mark_done mark_done_def)
  ultimately show ?thesis by simp
next
  case (Call_delete_todo u)
  have "todo_id ` set (map (\<lambda>r. if todo_id r = u then r\<lparr>todo_deleted := 1\<rparr> else r) con)
        = todo_id ` set con"
    by (rule update_rows_ids) simp
  with assms(1) have "t \<in> todo_id ` set (table_after con c)"
    by (simp only: Call_delete_todo table_after.simps delete_todo_def if_split sum.case) simp
  moreover have "\<forall>r\<in>set (table_after con c). todo_id r = t \<longrightarrow> todo_deleted r = 1"
    using assms(2) by (auto simp: Call_delete_todo delete_todo_def)
  ultimately show ?thesis by simp
qed

lemma table_after_all_keeps_deleted:
  assumes "t \<in> todo_id ` set con"
    and "\<forall>r\<in>set con. todo_id r = t \<longrightarrow> todo_deleted r = 1"
  shows "\<forall>r\<in>set (table_after_all con cs). todo_id r = t \<longrightarrow> todo_deleted r = 1"
  using assms unfolding table_after_all_def
proof (induction cs arbitrary: con)
  case Nil
  then show ?case by simp
next
  case (Cons c cs)
  from table_after_keeps_deleted [OF Cons.prems, of c]
  have "t \<in> todo_id ` set (table_after con c)"
    and "\<forall>r\<in>set (table_after con c). todo_id r = t \<longrightarrow> todo_deleted r = 1"
    by blast+
  then have "\<forall>r\<in>set (foldl table_after (table_after con c) cs). todo_id r = t \<longrightarrow> todo_deleted r = 1"
    by (rule Cons.IH)
  then show ?case by simp
qed

lemma filter_without:
  assumes "\<forall>r\<in>set con. todo_id r = t \<longrightarrow> \<not> P r"
  shows "filter P con = filter (\<lambda>r. todo_id r \<noteq> t \<and> P r) con"
  using assms by (induction con) auto

lemma deleted_rows_hidden:
  assumes k: "\<forall>r\<in>set c. todo_id r = t \<longrightarrow> todo_deleted r = 1"
  shows "t \<notin> todo_id ` set (draw_dashboard c wc)
       \<and> t \<notin> todo_id ` set (draw_completed c)
       \<and> get_stats c wc =
           (length [r \<leftarrow> c. todo_id r \<noteq> t \<and> todo_deleted r = 0 \<and> matches wc r],
            length [r \<leftarrow> c. todo_id r \<noteq> t \<and> todo_done r = 1 \<and> todo_deleted r = 0 \<and> matches wc r])"
proof -
  have 1: "t \<notin> todo_id ` set (draw_dashboard c wc)"
    using k by (auto simp: draw_dashboard_def order_by_id_desc_set)
  have 2: "t \<notin> todo_id ` set (draw_completed c)"
    using k by (auto simp: draw_completed_def order_by_id_desc_set)
  have 3: "[r \<leftarrow> c. todo_deleted r = 0 \<and> matches wc r]
           = [r \<leftarrow> c. todo_id r \<noteq> t \<and> todo_deleted r = 0 \<and> matches wc r]"
    by (rule filter_without) (use k in auto)
  have 4: "[r \<leftarrow> c. todo_done r = 1 \<and> todo_deleted r = 0 \<and> matches wc r]
           = [r \<leftarrow> c. todo_id r \<noteq> t \<and> todo_done r = 1 \<and> todo_deleted r = 0 \<and> matches wc r]"
    by (rule filter_without) (use k in auto)
  have 5: "get_stats c wc =
           (length [r \<leftarrow> c. todo_id r \<noteq> t \<and> todo_deleted r = 0 \<and> matches wc r],
            length [r \<leftarrow> c. todo_id r \<noteq> t \<and> todo_done r = 1 \<and> todo_deleted r = 0 \<and> matches wc r])"
    unfolding get_stats_def by (subst 3, subst 4) (rule refl)
  from 1 2 5 show ?thesis by (intro conjI)
qed

text \<open>
  C2. Let \<open>t\<close> be the identity of a row of the table. After \<open>delete_todo\<close> on \<open>t\<close>, and
  after any further calls of \<open>add_todo\<close>, \<open>mark_done\<close> and \<open>delete_todo\<close>, no row of
  the dashboard (under any clause) and no row of the completed view has the identity
  \<open>t\<close>, the two counts of \<open>get_stats\<close> are the counts over the rows of other
  identities, and every row with the identity \<open>t\<close> still has \<open>deleted = 1\<close>.
\<close>

theorem deleted_never_resurfaces:
  assumes "t \<in> todo_id ` set con" and "sqlite_integer t"
  shows "\<exists>con1. delete_todo con t = Inr con1 \<and>
           (\<forall>cs wc.
              (t \<notin> todo_id ` set (draw_dashboard (table_after_all con1 cs) wc)
            \<and> t \<notin> todo_id ` set (draw_completed (table_after_all con1 cs))
            \<and> get_stats (table_after_all con1 cs) wc =
                (length [r \<leftarrow> table_after_all con1 cs.
                           todo_id r \<noteq> t \<and> todo_deleted r = 0 \<and> matches wc r],
                 length [r \<leftarrow> table_after_all con1 cs.
                           todo_id r \<noteq> t \<and> todo_done r = 1 \<and> todo_deleted r = 0 \<and> matches wc r]))
            \<and> (\<forall>r\<in>set (table_after_all con1 cs). todo_id r = t \<longrightarrow> todo_deleted r = 1))"
proof -
  let ?con1 = "map (\<lambda>r. if todo_id r = t then r\<lparr>todo_deleted := 1\<rparr> else r) con"
  have d: "delete_todo con t = Inr ?con1"
    using assms(2) by (simp add: delete_todo_def)
  have ids: "todo_id ` set ?con1 = todo_id ` set con"
    by (rule update_rows_ids) simp
  have e: "t \<in> todo_id ` set ?con1"
    by (subst ids) (rule assms(1))
  have a: "\<forall>r\<in>set ?con1. todo_id r = t \<longrightarrow> todo_deleted r = 1"
    by (rule delete_marks_rows)
  show ?thesis
  proof (intro exI conjI allI)
    show "delete_todo con t = Inr ?con1" by (rule d)
  next
    fix cs wc
    have k: "\<forall>r\<in>set (table_after_all ?con1 cs). todo_id r = t \<longrightarrow> todo_deleted r = 1"
      by (rule table_after_all_keeps_deleted [OF e a])
    note h = deleted_rows_hidden [OF k, of wc]
    from h show "t \<notin> todo_id ` set (draw_dashboard (table_after_all ?con1 cs) wc)"
      by (rule conjunct1)
    from h show "t \<notin> todo_id ` set (draw_completed (table_after_all ?con1 cs))"
      by (rule conjunct1 [OF conjunct2])
    from h show "get_stats (table_after_all ?con1 cs) wc =
                (length [r \<leftarrow> table_after_all ?con1 cs.
                           todo_id r \<noteq> t \<and> todo_deleted r = 0 \<and> matches wc r],
                 length [r \<leftarrow> table_after_all ?con1 cs.
                           todo_id r \<noteq> t \<and> todo_done r = 1 \<and> todo_deleted r = 0 \<and> matches wc r])"
      by (rule conjunct2 [OF conjunct2])
    from k show "\<forall>r\<in>set (table_after_all ?con1 cs). todo_id r = t \<longrightarrow> todo_deleted r = 1" .
  qed
qed

theorem deleted_never_resurfaces_witness:
  "1 \<in> todo_id ` set [rowA, rowB] \<and> sqlite_integer 1
   \<and> (\<exists>con1. delete_todo [rowA, rowB] 1 = Inr con1
        \<and> 1 \<notin> todo_id ` set (draw_dashboard
              (table_after_all con1
                 [Call_mark_done 1,
                  Call_add_todo day_2025_01_10 Map.empty ''C'' ''home'' ''today''])
              NoClause))"
proof -
  have m: "1 \<in> todo_id ` set [rowA, rowB]" by (simp add: rowA_def rowB_def)
  have h: "sqlite_integer 1" by (simp add: sqlite_integer_def)
  from deleted_never_resurfaces [OF m h] m h show ?thesis by blast
qed

section \<open>The cursor\<close>

text \<open>
  C6. In the dashboard, when the fetched list has N > 0 rows, the down key and the up key
  set the cursor to the old cursor plus or minus one, modulo N: from 0 the up key gives
  N - 1, and from N - 1 the down key gives 0. When the list is empty, both keys leave the
  whole state as it is.
\<close>

theorem move_cursor_wraps:
  assumes "view s = Dashboard"
  shows "(draw_dashboard (db s) (where_clause s) \<noteq> [] \<longrightarrow>
            loop_body today parse s KEY_DOWN =
              Next (s\<lparr>cursor_idx :=
                (cursor_idx s + 1) mod int (length (draw_dashboard (db s) (where_clause s)))\<rparr>)
          \<and> loop_body today parse s KEY_UP =
              Next (s\<lparr>cursor_idx :=
                (cursor_idx s - 1) mod int (length (draw_dashboard (db s) (where_clause s)))\<rparr>)
          \<and> (cursor_idx s = 0 \<longrightarrow>
                loop_body today parse s KEY_UP =
                  Next (s\<lparr>cursor_idx :=
                    int (length (draw_dashboard (db s) (where_clause s))) - 1\<rparr>))
          \<and> (cursor_idx s = int (length (draw_dashboard (db s) (where_clause s))) - 1 \<longrightarrow>
                loop_body today parse s KEY_DOWN = Next (s\<lparr>cursor_idx := 0\<rparr>)))
       \<and> (draw_dashboard (db s) (where_clause s) = [] \<longrightarrow>
            loop_body today parse s KEY_DOWN = Next s \<and> loop_body today parse s KEY_UP = Next s)"
proof -
  let ?todos = "draw_dashboard (db s) (where_clause s)"
  have up: "loop_body today parse s KEY_UP =
              (if ?todos \<noteq> [] then Next (s\<lparr>cursor_idx := (cursor_idx s - 1) mod int (length ?todos)\<rparr>)
               else Next s)"
    using assms by (simp add: loop_body_def)
  have down: "loop_body today parse s KEY_DOWN =
              (if ?todos \<noteq> [] then Next (s\<lparr>cursor_idx := (cursor_idx s + 1) mod int (length ?todos)\<rparr>)
               else Next s)"
    using assms by (simp add: loop_body_def)
  have m1: "(0 - 1) mod int (length ?todos) = int (length ?todos) - 1" if "?todos \<noteq> []"
  proof -
    from that have "0 < int (length ?todos)" by simp
    then show ?thesis by (simp add: zmod_minus1)
  qed
  have m2: "(int (length ?todos) - 1 + 1) mod int (length ?todos) = 0"
    by simp
  show ?thesis
    using m1 m2 by (simp add: up down)
qed

theorem move_cursor_wraps_witness:
  "view (initial [rowA, rowB]) = Dashboard
   \<and> draw_dashboard (db (initial [rowA, rowB])) (where_clause (initial [rowA, rowB])) \<noteq> []
   \<and> cursor_idx (initial [rowA, rowB]) = 0
   \<and> loop_body day_2025_01_10 Map.empty (initial [rowA, rowB]) KEY_UP
        = Next ((initial [rowA, rowB])\<lparr>cursor_idx := 1\<rparr>)
   \<and> draw_dashboard (db (initial [])) (where_clause (initial [])) = []
   \<and> loop_body day_2025_01_10 Map.empty (initial []) KEY_UP = Next (initial [])"
proof -
  have v: "view (initial c) = Dashboard" for c by (simp add: initial_def)
  have d: "draw_dashboard (db (initial [rowA, rowB])) (where_clause (initial [rowA, rowB])) = [rowB, rowA]"
    by (simp add: initial_def draw_dashboard_def order_by_id_desc_def rowA_def rowB_def)
  have e: "draw_dashboard (db (initial [])) (where_clause (initial [])) = []"
    by (simp add: initial_def draw_dashboard_def order_by_id_desc_def)
  have c: "cursor_idx (initial [rowA, rowB]) = 0" by (simp add: initial_def)
  from move_cursor_wraps [OF v, of "[rowA, rowB]" day_2025_01_10 Map.empty]
       move_cursor_wraps [OF v, of "[]" day_2025_01_10 Map.empty] d e c v
  show ?thesis by simp
qed


lemma loop_body_keeps_cursor:
  assumes step: "loop_body today parse s ch = Next s'"
    and inv: "view s = Dashboard \<longrightarrow> cursor_idx s = 0 \<or>
                (0 \<le> cursor_idx s \<and>
                 cursor_idx s < int (length (draw_dashboard (db s) (where_clause s))))"
  shows "view s' = Dashboard \<longrightarrow> cursor_idx s' = 0 \<or>
                (0 \<le> cursor_idx s' \<and>
                 cursor_idx s' < int (length (draw_dashboard (db s') (where_clause s'))))"
proof (cases "view s")
  case Completed
  with step show ?thesis
    by (cases "ch = Key_b"; cases "ch = Key_q") (auto simp: loop_body_def Let_def)
next
  case Dashboard
  let ?todos = "draw_dashboard (db s) (where_clause s)"
  show ?thesis
  proof (cases ch)
    case KEY_UP
    with step Dashboard inv show ?thesis
      by (cases "?todos = []") (auto simp: loop_body_def Let_def)
  next
    case KEY_DOWN
    with step Dashboard inv show ?thesis
      by (cases "?todos = []") (auto simp: loop_body_def Let_def)
  next
    case Key_q
    with step show ?thesis by (simp add: loop_body_def Let_def)
  next
    case (Key_a title category due)
    with step Dashboard show ?thesis
      by (auto simp: loop_body_def Let_def split: sum.splits)
  next
    case Key_d
    with step Dashboard inv show ?thesis
      by (auto simp: loop_body_def Let_def split: sum.splits if_splits)
  next
    case Key_x
    with step Dashboard inv show ?thesis
      by (auto simp: loop_body_def Let_def split: sum.splits if_splits)
  next
    case Key_c
    with step Dashboard show ?thesis by (auto simp: loop_body_def Let_def)
  next
    case (Key_f cat)
    with step Dashboard inv show ?thesis
      by (auto simp: loop_body_def Let_def split: if_splits)
  next
    case (Key_slash query)
    with step Dashboard inv show ?thesis
      by (auto simp: loop_body_def Let_def split: if_splits)
  next
    case Key_b
    with step Dashboard show ?thesis by (auto simp: loop_body_def Let_def)
  next
    case Key_other
    with step Dashboard inv show ?thesis by (auto simp: loop_body_def Let_def)
  qed
qed

lemma main_loop_keeps_cursor:
  assumes "main_loop s evs = Next s'"
    and "view s = Dashboard \<longrightarrow> cursor_idx s = 0 \<or>
                (0 \<le> cursor_idx s \<and>
                 cursor_idx s < int (length (draw_dashboard (db s) (where_clause s))))"
  shows "view s' = Dashboard \<longrightarrow> cursor_idx s' = 0 \<or>
                (0 \<le> cursor_idx s' \<and>
                 cursor_idx s' < int (length (draw_dashboard (db s') (where_clause s'))))"
  using assms
proof (induction s evs rule: main_loop.induct)
  case (1 s)
  then show ?case by simp
next
  case (2 s today parse ch evs)
  from "2.prems"(1) obtain s1 where s1: "loop_body today parse s ch = Next s1"
    and rest: "main_loop s1 evs = Next s'"
    by (auto split: loop_result.splits)
  from s1 "2.prems"(2)
  have "view s1 = Dashboard \<longrightarrow> cursor_idx s1 = 0 \<or>
                (0 \<le> cursor_idx s1 \<and>
                 cursor_idx s1 < int (length (draw_dashboard (db s1) (where_clause s1))))"
    by (rule loop_body_keeps_cursor)
  with "2.IH" [OF s1 rest] show ?case .
qed

text \<open>
  C9. In every state in which the loop, started from the initial state over any table,
  draws the dashboard, the cursor is in bounds: it is 0 when the fetched list is empty,
  and otherwise at least 0 and below the length of the list.
\<close>

theorem cursor_in_bounds:
  assumes "main_loop (initial con0) evs = Next s" and "view s = Dashboard"
  shows "(draw_dashboard (db s) (where_clause s) = [] \<longrightarrow> cursor_idx s = 0)
       \<and> (draw_dashboard (db s) (where_clause s) \<noteq> [] \<longrightarrow>
            0 \<le> cursor_idx s
          \<and> cursor_idx s < int (length (draw_dashboard (db s) (where_clause s))))"
proof -
  have "view (initial con0) = Dashboard \<longrightarrow> cursor_idx (initial con0) = 0 \<or>
          (0 \<le> cursor_idx (initial con0) \<and>
           cursor_idx (initial con0)
             < int (length (draw_dashboard (db (initial con0)) (where_clause (initial con0)))))"
    by (simp add: initial_def)
  with assms(1)
  have "view s = Dashboard \<longrightarrow> cursor_idx s = 0 \<or>
          (0 \<le> cursor_idx s \<and>
           cursor_idx s < int (length (draw_dashboard (db s) (where_clause s))))"
    by (rule main_loop_keeps_cursor)
  with assms(2) show ?thesis by auto
qed

theorem cursor_in_bounds_witness:
  "main_loop (initial [rowA, rowB]) [(day_2025_01_10, Map.empty, KEY_DOWN)]
     = Next ((initial [rowA, rowB])\<lparr>cursor_idx := 1\<rparr>)
   \<and> view ((initial [rowA, rowB])\<lparr>cursor_idx := 1\<rparr>) = Dashboard
   \<and> draw_dashboard (db ((initial [rowA, rowB])\<lparr>cursor_idx := 1\<rparr>))
        (where_clause ((initial [rowA, rowB])\<lparr>cursor_idx := 1\<rparr>)) \<noteq> []
   \<and> cursor_idx ((initial [rowA, rowB])\<lparr>cursor_idx := 1\<rparr>)
        < int (length (draw_dashboard (db ((initial [rowA, rowB])\<lparr>cursor_idx := 1\<rparr>))
             (where_clause ((initial [rowA, rowB])\<lparr>cursor_idx := 1\<rparr>))))"
proof -
  have d: "draw_dashboard [rowA, rowB] NoClause = [rowB, rowA]"
    by (simp add: draw_dashboard_def order_by_id_desc_def rowA_def rowB_def)
  have r: "main_loop (initial [rowA, rowB]) [(day_2025_01_10, Map.empty, KEY_DOWN)]
             = Next ((initial [rowA, rowB])\<lparr>cursor_idx := 1\<rparr>)"
    by (simp add: loop_body_def initial_def d)
  have v: "view ((initial [rowA, rowB])\<lparr>cursor_idx := 1\<rparr>) = Dashboard"
    by (simp add: initial_def)
  have n: "draw_dashboard (db ((initial [rowA, rowB])\<lparr>cursor_idx := 1\<rparr>))
        (where_clause ((initial [rowA, rowB])\<lparr>cursor_idx := 1\<rparr>)) \<noteq> []"
    by (simp add: initial_def d)
  from cursor_in_bounds [OF r v] r v n show ?thesis by blast
qed

section \<open>The clauses of the dashboard\<close>

lemma like_percent: "like (CHR ''%'' # p) t \<longleftrightarrow> (\<exists>a b. t = a @ b \<and> like p b)"
proof (induction t)
  case Nil
  then show ?case by simp
next
  case (Cons c cs)
  have "like (CHR ''%'' # p) (c # cs) \<longleftrightarrow> like p (c # cs) \<or> like (CHR ''%'' # p) cs"
    by simp
  also have "\<dots> \<longleftrightarrow> like p (c # cs) \<or> (\<exists>a b. cs = a @ b \<and> like p b)"
    by (simp only: Cons.IH)
  also have "\<dots> \<longleftrightarrow> (\<exists>a b. c # cs = a @ b \<and> like p b)"
    by (auto simp: Cons_eq_append_conv)
  finally show ?case .
qed

lemma like_only_percent: "like ''%'' t"
  by (simp add: like_percent)

lemma like_append_percent: "like (p @ ''%'') t \<longleftrightarrow> (\<exists>a b. t = a @ b \<and> like p a)"
proof (induction p t rule: like.induct)
  case (1 t)
  show ?case using like_only_percent [of t] by simp
next
  case (2 p ps)
  then show ?case by simp
next
  case (3 p ps c cs)
  show ?case
  proof (cases "p = CHR ''%''")
    case True
    have "like ((p # ps) @ ''%'') (c # cs)
          \<longleftrightarrow> like (ps @ ''%'') (c # cs) \<or> like ((p # ps) @ ''%'') cs"
      using True by simp
    also have "\<dots> \<longleftrightarrow> (\<exists>a b. c # cs = a @ b \<and> like ps a) \<or> (\<exists>a b. cs = a @ b \<and> like (p # ps) a)"
      using "3.IH"(1) [OF True] "3.IH"(2) [OF True] by simp
    also have "\<dots> \<longleftrightarrow> (\<exists>a b. c # cs = a @ b \<and> like (p # ps) a)"
    proof
      assume "(\<exists>a b. c # cs = a @ b \<and> like ps a) \<or> (\<exists>a b. cs = a @ b \<and> like (p # ps) a)"
      then show "\<exists>a b. c # cs = a @ b \<and> like (p # ps) a"
      proof
        assume "\<exists>a b. c # cs = a @ b \<and> like ps a"
        then obtain a b where ab: "c # cs = a @ b" "like ps a" by blast
        have "like (p # ps) a" using True ab(2) by (cases a) simp_all
        with ab(1) show ?thesis by blast
      next
        assume "\<exists>a b. cs = a @ b \<and> like (p # ps) a"
        then obtain a b where ab: "cs = a @ b" "like (p # ps) a" by blast
        have "like (p # ps) (c # a)" using True ab(2) by simp
        moreover have "c # cs = (c # a) @ b" using ab(1) by simp
        ultimately show ?thesis by blast
      qed
    next
      assume "\<exists>a b. c # cs = a @ b \<and> like (p # ps) a"
      then obtain a b where ab: "c # cs = a @ b" "like (p # ps) a" by blast
      show "(\<exists>a b. c # cs = a @ b \<and> like ps a) \<or> (\<exists>a b. cs = a @ b \<and> like (p # ps) a)"
      proof (cases a)
        case Nil
        with ab(2) True have "like ps []" by simp
        with ab(1) Nil show ?thesis by blast
      next
        case (Cons x xs)
        with ab(1) have x: "x = c" "cs = xs @ b" by simp_all
        from ab(2) Cons True have "like ps (x # xs) \<or> like (p # ps) xs" by simp
        then show ?thesis
        proof
          assume "like ps (x # xs)"
          with ab(1) Cons show ?thesis by blast
        next
          assume "like (p # ps) xs"
          with x(2) show ?thesis by blast
        qed
      qed
    qed
    finally show ?thesis .
  next
    case False
    have "like ((p # ps) @ ''%'') (c # cs)
          \<longleftrightarrow> (p = CHR ''_'' \<or> sqlite_lower p = sqlite_lower c) \<and> like (ps @ ''%'') cs"
      using False by simp
    also have "\<dots> \<longleftrightarrow> (p = CHR ''_'' \<or> sqlite_lower p = sqlite_lower c)
                        \<and> (\<exists>a b. cs = a @ b \<and> like ps a)"
      using "3.IH"(3) [OF False] by simp
    also have "\<dots> \<longleftrightarrow> (\<exists>a b. c # cs = a @ b \<and> like (p # ps) a)"
    proof
      assume "(p = CHR ''_'' \<or> sqlite_lower p = sqlite_lower c) \<and> (\<exists>a b. cs = a @ b \<and> like ps a)"
      then obtain a b where m: "p = CHR ''_'' \<or> sqlite_lower p = sqlite_lower c"
        and ab: "cs = a @ b" "like ps a" by blast
      have "like (p # ps) (c # a)" using False m ab(2) by simp
      moreover have "c # cs = (c # a) @ b" using ab(1) by simp
      ultimately show "\<exists>a b. c # cs = a @ b \<and> like (p # ps) a" by blast
    next
      assume "\<exists>a b. c # cs = a @ b \<and> like (p # ps) a"
      then obtain a b where ab: "c # cs = a @ b" "like (p # ps) a" by blast
      from ab(2) False obtain x xs where a: "a = x # xs" by (cases a) simp_all
      with ab(1) have x: "x = c" "cs = xs @ b" by simp_all
      from ab(2) a False x(1)
      have "(p = CHR ''_'' \<or> sqlite_lower p = sqlite_lower c) \<and> like ps xs" by simp
      with x(2) show "(p = CHR ''_'' \<or> sqlite_lower p = sqlite_lower c)
                        \<and> (\<exists>a b. cs = a @ b \<and> like ps a)" by blast
    qed
    finally show ?thesis .
  qed
qed

lemma like_between_percents:
  "like (''%'' @ q @ ''%'') t \<longleftrightarrow> (\<exists>a m b. t = a @ m @ b \<and> like q m)"
proof -
  have "like (''%'' @ q @ ''%'') t \<longleftrightarrow> (\<exists>a r. t = a @ r \<and> like (q @ ''%'') r)"
    using like_percent [of "q @ ''%''" t] by simp
  also have "\<dots> \<longleftrightarrow> (\<exists>a r. t = a @ r \<and> (\<exists>m b. r = m @ b \<and> like q m))"
    by (simp only: like_append_percent)
  also have "\<dots> \<longleftrightarrow> (\<exists>a m b. t = a @ m @ b \<and> like q m)"
    by blast
  finally show ?thesis .
qed

lemma like_refl: "like q q"
proof (induction q)
  case Nil
  then show ?case by simp
next
  case (Cons x xs)
  show ?case
  proof (cases "x = CHR ''%''")
    case True
    have "like (CHR ''%'' # xs) xs"
      unfolding like_percent using Cons.IH by (intro exI [of _ "[]"] exI [of _ xs]) simp
    with True show ?thesis by simp
  next
    case False
    with Cons.IH show ?thesis by simp
  qed
qed

lemma like_of_sublist: "sublist q t \<Longrightarrow> like (''%'' @ q @ ''%'') t"
  unfolding like_between_percents sublist_def using like_refl by blast

lemma sqlite_lower_plain:
  assumes "\<not> ascii_letter p"
  shows "sqlite_lower p = sqlite_lower c \<longleftrightarrow> p = c"
proof
  assume eq: "sqlite_lower p = sqlite_lower c"
  from assms have p: "sqlite_lower p = p"
    by (auto simp: sqlite_lower_def ascii_letter_def Let_def)
  show "p = c"
  proof (cases "65 \<le> code_point c \<and> code_point c \<le> 90")
    case True
    then have "sqlite_lower c = char_of (code_point c + 32)"
      by (simp add: sqlite_lower_def Let_def)
    with eq p have "p = char_of (code_point c + 32)" by simp
    then have "code_point p = (code_point c + 32) mod 256"
      by (simp add: code_point_def)
    with True have "code_point p = code_point c + 32" by simp
    with True assms show ?thesis by (simp add: ascii_letter_def)
  next
    case False
    then have "sqlite_lower c = c" by (auto simp: sqlite_lower_def Let_def)
    with eq p show ?thesis by simp
  qed
next
  assume "p = c"
  then show "sqlite_lower p = sqlite_lower c" by simp
qed

lemma like_plain:
  assumes "\<forall>c\<in>set q. c \<noteq> CHR ''%'' \<and> c \<noteq> CHR ''_'' \<and> \<not> ascii_letter c"
  shows "like q m \<longleftrightarrow> m = q"
  using assms
proof (induction q arbitrary: m)
  case Nil
  then show ?case by auto
next
  case (Cons x xs)
  then have x: "x \<noteq> CHR ''%''" "x \<noteq> CHR ''_''" "\<not> ascii_letter x"
    and xs: "\<forall>c\<in>set xs. c \<noteq> CHR ''%'' \<and> c \<noteq> CHR ''_'' \<and> \<not> ascii_letter c"
    by simp_all
  show ?case
  proof (cases m)
    case Nil
    with x show ?thesis by simp
  next
    case (Cons c cs)
    with x sqlite_lower_plain [OF x(3), of c] Cons.IH [OF xs, of cs] show ?thesis
      by auto
  qed
qed

lemma like_plain_sublist:
  assumes "\<forall>c\<in>set q. c \<noteq> CHR ''%'' \<and> c \<noteq> CHR ''_'' \<and> \<not> ascii_letter c"
  shows "like (''%'' @ q @ ''%'') t \<longleftrightarrow> sublist q t"
  unfolding like_between_percents sublist_def like_plain [OF assms] by blast


lemma like_no_wildcards:
  assumes "\<forall>c\<in>set q. c \<noteq> CHR ''%'' \<and> c \<noteq> CHR ''_''"
  shows "like q m \<longleftrightarrow> map sqlite_lower m = map sqlite_lower q"
  using assms
proof (induction q arbitrary: m)
  case Nil
  then show ?case by auto
next
  case (Cons x xs)
  then have x: "x \<noteq> CHR ''%''" "x \<noteq> CHR ''_''"
    and xs: "\<forall>c\<in>set xs. c \<noteq> CHR ''%'' \<and> c \<noteq> CHR ''_''"
    by simp_all
  show ?case
  proof (cases m)
    case Nil
    with x show ?thesis by simp
  next
    case (Cons c cs)
    with x Cons.IH [OF xs, of cs] show ?thesis by auto
  qed
qed

lemma sublist_map_iff:
  "sublist (map f q) (map f t) \<longleftrightarrow> (\<exists>a m b. t = a @ m @ b \<and> map f m = map f q)"
proof
  assume "sublist (map f q) (map f t)"
  then obtain ps ss where e: "map f t = ps @ (map f q @ ss)" unfolding sublist_def by blast
  from e [unfolded map_eq_append_conv]
  obtain a rest where t: "t = a @ rest" and r: "map f q @ ss = map f rest" by blast
  from r have "map f rest = map f q @ ss" by (rule sym)
  from this [unfolded map_eq_append_conv]
  obtain m b where m: "rest = m @ b" "map f q = map f m" by blast
  from m(2) have "map f m = map f q" by (rule sym)
  with t m(1) show "\<exists>a m b. t = a @ m @ b \<and> map f m = map f q" by blast
next
  assume "\<exists>a m b. t = a @ m @ b \<and> map f m = map f q"
  then obtain a m b where "t = a @ m @ b" and "map f m = map f q" by blast
  then have "map f t = map f a @ map f q @ map f b" by simp
  then show "sublist (map f q) (map f t)" unfolding sublist_def by blast
qed

lemma like_folds_case:
  assumes "\<forall>c\<in>set q. c \<noteq> CHR ''%'' \<and> c \<noteq> CHR ''_''"
  shows "like (''%'' @ q @ ''%'') t
         \<longleftrightarrow> sublist (map sqlite_lower q) (map sqlite_lower t)"
  unfolding like_between_percents sublist_map_iff like_no_wildcards [OF assms] ..

lemma c_string_pattern:
  assumes "CHR 0x00 \<notin> set q"
  shows "c_string (''%'' @ q @ ''%'') = ''%'' @ q @ ''%''"
proof -
  have "\<forall>c\<in>set (''%'' @ q @ ''%''). c \<noteq> CHR 0x00" using assms by auto
  then show ?thesis unfolding c_string_def by (simp only: takeWhile_eq_all_conv)
qed

lemma matches_search:
  assumes "CHR 0x00 \<notin> set q"
  shows "matches (TitleLike (''%'' @ q @ ''%'')) r
         \<longleftrightarrow> (\<exists>a m b. c_string (todo_title r) = a @ m @ b \<and> like q m)"
  unfolding matches.simps c_string_pattern [OF assms] like_between_percents ..

lemma matches_search_sublist:
  assumes "CHR 0x00 \<notin> set q" and "sublist q (c_string (todo_title r))"
  shows "matches (TitleLike (''%'' @ q @ ''%'')) r"
  unfolding matches.simps c_string_pattern [OF assms(1)] using assms(2) by (rule like_of_sublist)

lemma matches_search_folded:
  assumes "CHR 0x00 \<notin> set q" and "\<forall>c\<in>set q. c \<noteq> CHR ''%'' \<and> c \<noteq> CHR ''_''"
  shows "matches (TitleLike (''%'' @ q @ ''%'')) r
         \<longleftrightarrow> sublist (map sqlite_lower q) (map sqlite_lower (c_string (todo_title r)))"
  unfolding matches.simps c_string_pattern [OF assms(1)] like_folds_case [OF assms(2)] ..

lemma matches_search_plain:
  assumes "CHR 0x00 \<notin> set q"
    and "\<forall>c\<in>set q. c \<noteq> CHR ''%'' \<and> c \<noteq> CHR ''_'' \<and> \<not> ascii_letter c"
  shows "matches (TitleLike (''%'' @ q @ ''%'')) r \<longleftrightarrow> sublist q (c_string (todo_title r))"
  unfolding matches.simps c_string_pattern [OF assms(1)] like_plain_sublist [OF assms(2)] ..

lemma draw_dashboard_mset:
  "mset (draw_dashboard con wc) =
     filter_mset (\<lambda>r. todo_deleted r = 0 \<and> todo_done r = 0 \<and> matches wc r) (mset con)"
  unfolding draw_dashboard_def order_by_id_desc_mset mset_filter ..

lemma draw_dashboard_search:
  assumes "CHR 0x00 \<notin> set q"
  shows "mset (draw_dashboard con (TitleLike (''%'' @ q @ ''%''))) =
     filter_mset (\<lambda>r. todo_deleted r = 0 \<and> todo_done r = 0
                      \<and> (\<exists>a m b. c_string (todo_title r) = a @ m @ b \<and> like q m)) (mset con)"
  unfolding draw_dashboard_mset matches_search [OF assms] ..

lemma draw_dashboard_search_folded:
  assumes "CHR 0x00 \<notin> set q" and "\<forall>c\<in>set q. c \<noteq> CHR ''%'' \<and> c \<noteq> CHR ''_''"
  shows "mset (draw_dashboard con (TitleLike (''%'' @ q @ ''%''))) =
     filter_mset (\<lambda>r. todo_deleted r = 0 \<and> todo_done r = 0
        \<and> sublist (map sqlite_lower q) (map sqlite_lower (c_string (todo_title r)))) (mset con)"
  unfolding draw_dashboard_mset matches_search_folded [OF assms] ..

lemma draw_dashboard_search_plain:
  assumes "CHR 0x00 \<notin> set q"
    and "\<forall>c\<in>set q. c \<noteq> CHR ''%'' \<and> c \<noteq> CHR ''_'' \<and> \<not> ascii_letter c"
  shows "mset (draw_dashboard con (TitleLike (''%'' @ q @ ''%''))) =
     filter_mset (\<lambda>r. todo_deleted r = 0 \<and> todo_done r = 0
        \<and> sublist q (c_string (todo_title r))) (mset con)"
  unfolding draw_dashboard_mset matches_search_plain [OF assms] ..

lemma draw_dashboard_search_sublist:
  assumes "CHR 0x00 \<notin> set q"
    and "r \<in> set con" and "todo_deleted r = 0" and "todo_done r = 0"
    and "sublist q (c_string (todo_title r))"
  shows "r \<in> set (draw_dashboard con (TitleLike (''%'' @ q @ ''%'')))"
  using assms(2-4) matches_search_sublist [OF assms(1) assms(5)]
  by (simp only: draw_dashboard_def order_by_id_desc_set set_filter mem_Collect_eq simp_thms)

lemma milk_listed: "draw_dashboard [row_milk] (TitleLike ''%MILK%'') = [row_milk]"
proof -
  have "like (c_string ''%MILK%'') (c_string ''Buy milk'')" by code_simp
  then show ?thesis
    by (simp add: draw_dashboard_def order_by_id_desc_def row_milk_def)
qed

text \<open>
  C1 (as amended). Whatever the table holds, the rows of the dashboard are exactly the
  rows with \<open>deleted = 0\<close> and \<open>done = 0\<close> that the clause selects, each once: all of
  them under the empty clause; those whose category is the given one under the category
  clause; and under the search clause for a text \<open>q\<close> (without U+0000, the pattern
  \<open>%q%\<close> of at most 50000 bytes) those whose title, read up to its first U+0000, has a part
  that \<open>q\<close> matches as a LIKE pattern. These include every such row whose title contains
  \<open>q\<close>; when \<open>q\<close> has no \<open>%\<close> and no \<open>_\<close> they are the rows whose title contains \<open>q\<close> up
  to the case of the letters A-Z. The rows of the completed view are exactly those with
  \<open>deleted = 0\<close> and \<open>done = 1\<close>. Both lists descend by identity, strictly so since the
  identities of a table are distinct.
\<close>

theorem listings_by_clause:
  "mset (draw_dashboard con NoClause) =
     filter_mset (\<lambda>r. todo_deleted r = 0 \<and> todo_done r = 0) (mset con)
 \<and> mset (draw_dashboard con (CategoryEq cat)) =
     filter_mset (\<lambda>r. todo_deleted r = 0 \<and> todo_done r = 0 \<and> todo_category r = cat) (mset con)
 \<and> (CHR 0x00 \<notin> set q \<and> utf8_length (''%'' @ q @ ''%'') \<le> like_pattern_limit \<longrightarrow>
      mset (draw_dashboard con (TitleLike (''%'' @ q @ ''%''))) =
        filter_mset (\<lambda>r. todo_deleted r = 0 \<and> todo_done r = 0
          \<and> (\<exists>a m b. c_string (todo_title r) = a @ m @ b \<and> like q m)) (mset con)
    \<and> (\<forall>r\<in>set con. todo_deleted r = 0 \<and> todo_done r = 0
          \<and> sublist q (c_string (todo_title r))
        \<longrightarrow> r \<in> set (draw_dashboard con (TitleLike (''%'' @ q @ ''%''))))
    \<and> ((\<forall>c\<in>set q. c \<noteq> CHR ''%'' \<and> c \<noteq> CHR ''_'') \<longrightarrow>
        mset (draw_dashboard con (TitleLike (''%'' @ q @ ''%''))) =
          filter_mset (\<lambda>r. todo_deleted r = 0 \<and> todo_done r = 0
            \<and> sublist (map sqlite_lower q) (map sqlite_lower (c_string (todo_title r))))
            (mset con)))
 \<and> sorted_wrt (\<lambda>a b. todo_id b \<le> todo_id a) (draw_dashboard con wc)
 \<and> mset (draw_completed con) =
     filter_mset (\<lambda>r. todo_deleted r = 0 \<and> todo_done r = 1) (mset con)
 \<and> sorted_wrt (\<lambda>a b. todo_id b \<le> todo_id a) (draw_completed con)
 \<and> (wf_store con \<longrightarrow>
      sorted_wrt (\<lambda>a b. todo_id b < todo_id a) (draw_dashboard con wc) \<and>
      sorted_wrt (\<lambda>a b. todo_id b < todo_id a) (draw_completed con))"
proof (intro conjI impI ballI)
  show "mset (draw_dashboard con NoClause) =
     filter_mset (\<lambda>r. todo_deleted r = 0 \<and> todo_done r = 0) (mset con)"
    unfolding draw_dashboard_mset matches.simps simp_thms ..
  show "mset (draw_dashboard con (CategoryEq cat)) =
     filter_mset (\<lambda>r. todo_deleted r = 0 \<and> todo_done r = 0 \<and> todo_category r = cat) (mset con)"
    unfolding draw_dashboard_mset matches.simps ..
  show "sorted_wrt (\<lambda>a b. todo_id b \<le> todo_id a) (draw_dashboard con wc)"
    using listings_select [of con wc] by blast
  show "mset (draw_completed con) =
     filter_mset (\<lambda>r. todo_deleted r = 0 \<and> todo_done r = 1) (mset con)"
    using listings_select [of con wc] by blast
  show "sorted_wrt (\<lambda>a b. todo_id b \<le> todo_id a) (draw_completed con)"
    using listings_select [of con wc] by blast
next
  assume "wf_store con"
  then show "sorted_wrt (\<lambda>a b. todo_id b < todo_id a) (draw_dashboard con wc)"
    and "sorted_wrt (\<lambda>a b. todo_id b < todo_id a) (draw_completed con)"
    using listings_select [of con wc] by blast+
next
  assume "CHR 0x00 \<notin> set q \<and> utf8_length (''%'' @ q @ ''%'') \<le> like_pattern_limit"
  then have q: "CHR 0x00 \<notin> set q" by blast
  then show "mset (draw_dashboard con (TitleLike (''%'' @ q @ ''%''))) =
        filter_mset (\<lambda>r. todo_deleted r = 0 \<and> todo_done r = 0
          \<and> (\<exists>a m b. c_string (todo_title r) = a @ m @ b \<and> like q m)) (mset con)"
    by (rule draw_dashboard_search)
  {
    fix r
    assume "r \<in> set con"
      and "todo_deleted r = 0 \<and> todo_done r = 0 \<and> sublist q (c_string (todo_title r))"
    then show "r \<in> set (draw_dashboard con (TitleLike (''%'' @ q @ ''%'')))"
      using q by (intro draw_dashboard_search_sublist) blast+
  }
  {
    assume "\<forall>c\<in>set q. c \<noteq> CHR ''%'' \<and> c \<noteq> CHR ''_''"
    with q show "mset (draw_dashboard con (TitleLike (''%'' @ q @ ''%''))) =
          filter_mset (\<lambda>r. todo_deleted r = 0 \<and> todo_done r = 0
            \<and> sublist (map sqlite_lower q) (map sqlite_lower (c_string (todo_title r))))
            (mset con)"
      by (rule draw_dashboard_search_folded)
  }
qed

theorem listings_by_clause_witness:
  "CHR 0x00 \<notin> set ''MILK'' \<and> utf8_length (''%'' @ ''MILK'' @ ''%'') \<le> like_pattern_limit
   \<and> wf_store [rowA, row_milk]
   \<and> mset (draw_dashboard [rowA, row_milk] (TitleLike (''%'' @ ''MILK'' @ ''%''))) = {#row_milk#}
   \<and> sorted_wrt (\<lambda>a b. todo_id b < todo_id a) (draw_dashboard [rowA, row_milk] NoClause)"
proof -
  have n: "CHR 0x00 \<notin> set ''MILK''" by simp
  have u: "utf8_length (''%'' @ ''MILK'' @ ''%'') \<le> like_pattern_limit"
    by (simp add: utf8_length_def like_pattern_limit_def code_point_def)
  have w: "wf_store [rowA, row_milk]" by (simp add: wf_store_def rowA_def row_milk_def)
  have p: "\<forall>c\<in>set ''MILK''. c \<noteq> CHR ''%'' \<and> c \<noteq> CHR ''_''" by simp
  have a: "\<not> sublist (map sqlite_lower ''MILK'') (map sqlite_lower (c_string (todo_title rowA)))"
    unfolding rowA_def by code_simp
  have b: "sublist (map sqlite_lower ''MILK'') (map sqlite_lower (c_string (todo_title row_milk)))"
    unfolding row_milk_def by code_simp
  have f: "filter_mset (\<lambda>r. todo_deleted r = 0 \<and> todo_done r = 0
            \<and> sublist (map sqlite_lower ''MILK'') (map sqlite_lower (c_string (todo_title r))))
            (mset [rowA, row_milk]) = {#row_milk#}"
    using a b by simp (simp add: rowA_def row_milk_def)
  from listings_by_clause [of "[rowA, row_milk]" _ "''MILK''" NoClause] n u w p f
  show ?thesis by simp
qed

text \<open>
  C1 as stated fails for the search clause: the text \<open>MILK\<close> lists the row with the
  title \<open>Buy milk\<close>, which does not contain \<open>MILK\<close>.
\<close>

theorem listing_substring_counterexample:
  "draw_dashboard [row_milk] (TitleLike ''%MILK%'') = [row_milk]
   \<and> todo_deleted row_milk = 0 \<and> todo_done row_milk = 0
   \<and> todo_title row_milk = ''Buy milk''
   \<and> \<not> sublist ''MILK'' ''Buy milk''"
proof -
  have "\<not> sublist ''MILK'' ''Buy milk''" by code_simp
  with milk_listed show ?thesis by (simp add: row_milk_def)
qed

text \<open>
  C7 (as amended). In the dashboard, the search key with an empty query leaves the state
  as it is. With a query \<open>q\<close> that is not empty it sets the clause to
  \<open>title LIKE %q%\<close>, the subtitle to the search message and the cursor to 0. When \<open>q\<close>
  has no U+0000 and the pattern \<open>%q%\<close> is of at most 50000 bytes, the dashboard then lists
  exactly the rows with \<open>deleted = 0\<close> and \<open>done = 0\<close> whose title, read up to its first
  U+0000, has a part that \<open>q\<close> matches as a LIKE pattern. Every such row whose title
  contains \<open>q\<close> is listed. When \<open>q\<close> has no \<open>%\<close> and no \<open>_\<close>, the rows listed are those
  whose title contains \<open>q\<close> up to the case of the letters A-Z; and when \<open>q\<close> has no such
  letter either, those whose title contains \<open>q\<close>.
\<close>

theorem search_sets_like_pattern:
  assumes "view s = Dashboard"
  shows "loop_body today parse s (Key_slash []) = Next s
       \<and> (q \<noteq> [] \<longrightarrow>
            (\<exists>s'. loop_body today parse s (Key_slash q) = Next s'
               \<and> where_clause s' = TitleLike (''%'' @ q @ ''%'')
               \<and> subtitle s' = ''Search results for '' @ [CHR 0x27] @ q @ [CHR 0x27]
               \<and> cursor_idx s' = 0 \<and> view s' = Dashboard \<and> db s' = db s
               \<and> (CHR 0x00 \<notin> set q
                    \<and> utf8_length (''%'' @ q @ ''%'') \<le> like_pattern_limit \<longrightarrow>
                  mset (draw_dashboard (db s') (where_clause s')) =
                    filter_mset (\<lambda>r. todo_deleted r = 0 \<and> todo_done r = 0
                      \<and> (\<exists>a m b. c_string (todo_title r) = a @ m @ b \<and> like q m))
                      (mset (db s))
                \<and> (\<forall>r\<in>set (db s). todo_deleted r = 0 \<and> todo_done r = 0
                       \<and> sublist q (c_string (todo_title r))
                     \<longrightarrow> r \<in> set (draw_dashboard (db s') (where_clause s')))
                \<and> ((\<forall>c\<in>set q. c \<noteq> CHR ''%'' \<and> c \<noteq> CHR ''_'') \<longrightarrow>
                    mset (draw_dashboard (db s') (where_clause s')) =
                      filter_mset (\<lambda>r. todo_deleted r = 0 \<and> todo_done r = 0
                        \<and> sublist (map sqlite_lower q)
                             (map sqlite_lower (c_string (todo_title r)))) (mset (db s)))
                \<and> ((\<forall>c\<in>set q. c \<noteq> CHR ''%'' \<and> c \<noteq> CHR ''_'' \<and> \<not> ascii_letter c) \<longrightarrow>
                    mset (draw_dashboard (db s') (where_clause s')) =
                      filter_mset (\<lambda>r. todo_deleted r = 0 \<and> todo_done r = 0
                        \<and> sublist q (c_string (todo_title r))) (mset (db s))))))"
proof (intro conjI impI)
  show "loop_body today parse s (Key_slash []) = Next s"
    using assms by (simp add: loop_body_def)
next
  assume q: "q \<noteq> []"
  let ?s' = "s\<lparr>where_clause := TitleLike (''%'' @ q @ ''%''),
               subtitle := ''Search results for '' @ [CHR 0x27] @ q @ [CHR 0x27],
               cursor_idx := 0\<rparr>"
  have step: "loop_body today parse s (Key_slash q) = Next ?s'"
    using assms q by (simp add: loop_body_def)
  have d: "draw_dashboard (db ?s') (where_clause ?s')
           = draw_dashboard (db s) (TitleLike (''%'' @ q @ ''%''))"
    by simp
  have l: "CHR 0x00 \<notin> set q \<and> utf8_length (''%'' @ q @ ''%'') \<le> like_pattern_limit \<longrightarrow>
                  mset (draw_dashboard (db ?s') (where_clause ?s')) =
                    filter_mset (\<lambda>r. todo_deleted r = 0 \<and> todo_done r = 0
                      \<and> (\<exists>a m b. c_string (todo_title r) = a @ m @ b \<and> like q m))
                      (mset (db s))
                \<and> (\<forall>r\<in>set (db s). todo_deleted r = 0 \<and> todo_done r = 0
                       \<and> sublist q (c_string (todo_title r))
                     \<longrightarrow> r \<in> set (draw_dashboard (db ?s') (where_clause ?s')))
                \<and> ((\<forall>c\<in>set q. c \<noteq> CHR ''%'' \<and> c \<noteq> CHR ''_'') \<longrightarrow>
                    mset (draw_dashboard (db ?s') (where_clause ?s')) =
                      filter_mset (\<lambda>r. todo_deleted r = 0 \<and> todo_done r = 0
                        \<and> sublist (map sqlite_lower q)
                             (map sqlite_lower (c_string (todo_title r)))) (mset (db s)))
                \<and> ((\<forall>c\<in>set q. c \<noteq> CHR ''%'' \<and> c \<noteq> CHR ''_'' \<and> \<not> ascii_letter c) \<longrightarrow>
                    mset (draw_dashboard (db ?s') (where_clause ?s')) =
                      filter_mset (\<lambda>r. todo_deleted r = 0 \<and> todo_done r = 0
                        \<and> sublist q (c_string (todo_title r))) (mset (db s)))"
    unfolding d
  proof (intro impI conjI ballI)
    assume "CHR 0x00 \<notin> set q \<and> utf8_length (''%'' @ q @ ''%'') \<le> like_pattern_limit"
    then have n: "CHR 0x00 \<notin> set q" by blast
    then show "mset (draw_dashboard (db s) (TitleLike (''%'' @ q @ ''%''))) =
                    filter_mset (\<lambda>r. todo_deleted r = 0 \<and> todo_done r = 0
                      \<and> (\<exists>a m b. c_string (todo_title r) = a @ m @ b \<and> like q m))
                      (mset (db s))"
      by (rule draw_dashboard_search)
    {
      fix r
      assume "r \<in> set (db s)"
        and "todo_deleted r = 0 \<and> todo_done r = 0 \<and> sublist q (c_string (todo_title r))"
      then show "r \<in> set (draw_dashboard (db s) (TitleLike (''%'' @ q @ ''%'')))"
        using n by (intro draw_dashboard_search_sublist) blast+
    }
    {
      assume "\<forall>c\<in>set q. c \<noteq> CHR ''%'' \<and> c \<noteq> CHR ''_''"
      with n show "mset (draw_dashboard (db s) (TitleLike (''%'' @ q @ ''%''))) =
                      filter_mset (\<lambda>r. todo_deleted r = 0 \<and> todo_done r = 0
                        \<and> sublist (map sqlite_lower q)
                             (map sqlite_lower (c_string (todo_title r)))) (mset (db s))"
        by (rule draw_dashboard_search_folded)
    }
    {
      assume "\<forall>c\<in>set q. c \<noteq> CHR ''%'' \<and> c \<noteq> CHR ''_'' \<and> \<not> ascii_letter c"
      with n show "mset (draw_dashboard (db s) (TitleLike (''%'' @ q @ ''%''))) =
                      filter_mset (\<lambda>r. todo_deleted r = 0 \<and> todo_done r = 0
                        \<and> sublist q (c_string (todo_title r))) (mset (db s))"
        by (rule draw_dashboard_search_plain)
    }
  qed
  have f: "where_clause ?s' = TitleLike (''%'' @ q @ ''%'')
         \<and> subtitle ?s' = ''Search results for '' @ [CHR 0x27] @ q @ [CHR 0x27]
         \<and> cursor_idx ?s' = 0 \<and> view ?s' = Dashboard \<and> db ?s' = db s"
    using assms by simp
  from step f l
  show "\<exists>s'. loop_body today parse s (Key_slash q) = Next s'
               \<and> where_clause s' = TitleLike (''%'' @ q @ ''%'')
               \<and> subtitle s' = ''Search results for '' @ [CHR 0x27] @ q @ [CHR 0x27]
               \<and> cursor_idx s' = 0 \<and> view s' = Dashboard \<and> db s' = db s
               \<and> (CHR 0x00 \<notin> set q
                    \<and> utf8_length (''%'' @ q @ ''%'') \<le> like_pattern_limit \<longrightarrow>
                  mset (draw_dashboard (db s') (where_clause s')) =
                    filter_mset (\<lambda>r. todo_deleted r = 0 \<and> todo_done r = 0
                      \<and> (\<exists>a m b. c_string (todo_title r) = a @ m @ b \<and> like q m))
                      (mset (db s))
                \<and> (\<forall>r\<in>set (db s). todo_deleted r = 0 \<and> todo_done r = 0
                       \<and> sublist q (c_string (todo_title r))
                     \<longrightarrow> r \<in> set (draw_dashboard (db s') (where_clause s')))
                \<and> ((\<forall>c\<in>set q. c \<noteq> CHR ''%'' \<and> c \<noteq> CHR ''_'') \<longrightarrow>
                    mset (draw_dashboard (db s') (where_clause s')) =
                      filter_mset (\<lambda>r. todo_deleted r = 0 \<and> todo_done r = 0
                        \<and> sublist (map sqlite_lower q)
                             (map sqlite_lower (c_string (todo_title r)))) (mset (db s)))
                \<and> ((\<forall>c\<in>set q. c \<noteq> CHR ''%'' \<and> c \<noteq> CHR ''_'' \<and> \<not> ascii_letter c) \<longrightarrow>
                    mset (draw_dashboard (db s') (where_clause s')) =
                      filter_mset (\<lambda>r. todo_deleted r = 0 \<and> todo_done r = 0
                        \<and> sublist q (c_string (todo_title r))) (mset (db s))))"
    by (intro exI [of _ ?s'] conjI) blast+
qed

theorem search_sets_like_pattern_witness:
  "view (initial [rowA, row1]) = Dashboard \<and> ''1'' \<noteq> []
   \<and> CHR 0x00 \<notin> set ''1'' \<and> utf8_length (''%'' @ ''1'' @ ''%'') \<le> like_pattern_limit
   \<and> \<not> ascii_letter (CHR ''1'')
   \<and> (\<exists>s'. loop_body day_2025_01_10 Map.empty (initial [rowA, row1]) (Key_slash ''1'') = Next s'
         \<and> mset (draw_dashboard (db s') (where_clause s')) = {#row1#})"
proof -
  have v: "view (initial [rowA, row1]) = Dashboard" by (simp add: initial_def)
  have z: "CHR 0x00 \<notin> set ''1''" by simp
  have u: "utf8_length (''%'' @ ''1'' @ ''%'') \<le> like_pattern_limit"
    by (simp add: utf8_length_def like_pattern_limit_def code_point_def)
  have p: "\<forall>c\<in>set ''1''. c \<noteq> CHR ''%'' \<and> c \<noteq> CHR ''_'' \<and> \<not> ascii_letter c"
    by (simp add: ascii_letter_def code_point_def)
  have a: "\<not> sublist ''1'' (c_string (todo_title rowA))" unfolding rowA_def by code_simp
  have b: "sublist ''1'' (c_string (todo_title row1))" unfolding row1_def by code_simp
  have f: "filter_mset (\<lambda>r. todo_deleted r = 0 \<and> todo_done r = 0
             \<and> sublist ''1'' (c_string (todo_title r))) (mset (db (initial [rowA, row1])))
           = {#row1#}"
    using a b by (simp add: initial_def) (simp add: rowA_def row1_def)
  have n: "\<not> ascii_letter (CHR ''1'')"
    by (simp add: ascii_letter_def code_point_def)
  from search_sets_like_pattern [OF v, of day_2025_01_10 Map.empty "''1''"] p f v n z u
  show ?thesis by auto
qed

text \<open>
  C7 as stated fails: the query \<open>a\<close> lists the row with the title \<open>A\<close>, which does not
  contain \<open>a\<close>.
\<close>

theorem search_substring_counterexample:
  "loop_body day_2025_01_10 Map.empty (initial [rowA]) (Key_slash ''a'')
     = Next \<lparr>view = Dashboard, cursor_idx = 0, where_clause = TitleLike ''%a%'',
             subtitle = ''Search results for '' @ [CHR 0x27] @ ''a'' @ [CHR 0x27], db = [rowA]\<rparr>
   \<and> draw_dashboard [rowA] (TitleLike ''%a%'') = [rowA]
   \<and> todo_deleted rowA = 0 \<and> todo_done rowA = 0
   \<and> \<not> sublist ''a'' (todo_title rowA)"
proof -
  have 1: "loop_body day_2025_01_10 Map.empty (initial [rowA]) (Key_slash ''a'')
     = Next \<lparr>view = Dashboard, cursor_idx = 0, where_clause = TitleLike ''%a%'',
             subtitle = ''Search results for '' @ [CHR 0x27] @ ''a'' @ [CHR 0x27], db = [rowA]\<rparr>"
    by (simp add: loop_body_def initial_def)
  have l: "like (c_string ''%a%'') (c_string ''A'')" by code_simp
  have 2: "draw_dashboard [rowA] (TitleLike ''%a%'') = [rowA]"
    using l by (simp add: draw_dashboard_def order_by_id_desc_def rowA_def)
  have 3: "\<not> sublist ''a'' (todo_title rowA)" unfolding rowA_def by code_simp
  from 1 2 3 show ?thesis by (simp add: rowA_def)
qed

section \<open>Due dates\<close>

subsection \<open>Ordinals and dates\<close>

lemma table_nth:
  "days_before_month_table ! 0 = 0" "days_before_month_table ! 1 = 0"
  "days_before_month_table ! Suc 0 = 0"
  "days_before_month_table ! 2 = 31" "days_before_month_table ! 3 = 59"
  "days_before_month_table ! 4 = 90" "days_before_month_table ! 5 = 120"
  "days_before_month_table ! 6 = 151" "days_before_month_table ! 7 = 181"
  "days_before_month_table ! 8 = 212" "days_before_month_table ! 9 = 243"
  "days_before_month_table ! 10 = 273" "days_before_month_table ! 11 = 304"
  "days_before_month_table ! 12 = 334"
  by (simp_all add: days_before_month_table_def)

text \<open>
  The month and the day that \<open>fromordinal\<close> finds for the day \<open>r\<close> of a year, counted
  from 0, in a leap year (\<open>lp\<close>) or not.
\<close>

lemma div32: "(a::nat) div 32 = k \<Longrightarrow> 32 * k \<le> a \<and> a < 32 * k + 32"
proof -
  assume k: "a div 32 = k"
  have "a = 32 * (a div 32) + a mod 32" by simp
  moreover have "a mod 32 < 32" by simp
  ultimately show ?thesis unfolding k by linarith
qed

lemma month_day_estimate:
  fixes r :: nat and lp :: bool
  assumes r: "r < 365"
  defines "m \<equiv> (r + 50) div 32"
  defines "p \<equiv> days_before_month_table ! m + (if 2 < m \<and> lp then 1 else 0)"
  defines "mo \<equiv> (if r < p then m - 1 else m)"
  defines "dy \<equiv> (if r < p
                   then r - (p - (days_in_month 1 (m - 1) + (if m - 1 = 2 \<and> lp then 1 else 0))) + 1
                   else r - p + 1)"
  shows "1 \<le> mo \<and> mo \<le> 12 \<and> 1 \<le> dy
       \<and> dy \<le> (if mo = 2 then (if lp then 29 else 28)
                  else if mo = 4 \<or> mo = 6 \<or> mo = 9 \<or> mo = 11 then 30 else 31)
       \<and> days_before_month_table ! mo + (if 2 < mo \<and> lp then 1 else 0) + dy = r + 1"
proof -
  have "1 \<le> m" "m \<le> 12" using r by (simp_all add: m_def)
  then consider "m = 1" | "m = 2" | "m = 3" | "m = 4" | "m = 5" | "m = 6"
    | "m = 7" | "m = 8" | "m = 9" | "m = 10" | "m = 11" | "m = 12"
    by atomize_elim arith
  then show ?thesis
  proof cases
    case 1
    then have "r + 50 < 64" "32 \<le> r + 50" using div32 [of "r + 50" m] unfolding m_def by simp_all
    with 1 show ?thesis unfolding p_def mo_def dy_def
      by (cases lp; simp add: table_nth days_in_month_def is_leap_def; arith)
  next
    case 2
    then have "r + 50 < 96" "64 \<le> r + 50" using div32 [of "r + 50" m] unfolding m_def by simp_all
    with 2 show ?thesis unfolding p_def mo_def dy_def
      by (cases lp; simp add: table_nth days_in_month_def is_leap_def; arith)
  next
    case 3
    then have "r + 50 < 128" "96 \<le> r + 50" using div32 [of "r + 50" m] unfolding m_def by simp_all
    with 3 show ?thesis unfolding p_def mo_def dy_def
      by (cases lp; simp add: table_nth days_in_month_def is_leap_def; arith)
  next
    case 4
    then have "r + 50 < 160" "128 \<le> r + 50" using div32 [of "r + 50" m] unfolding m_def by simp_all
    with 4 show ?thesis unfolding p_def mo_def dy_def
      by (cases lp; simp add: table_nth days_in_month_def is_leap_def; arith)
  next
    case 5
    then have "r + 50 < 192" "160 \<le> r + 50" using div32 [of "r + 50" m] unfolding m_def by simp_all
    with 5 show ?thesis unfolding p_def mo_def dy_def
      by (cases lp; simp add: table_nth days_in_month_def is_leap_def; arith)
  next
    case 6
    then have "r + 50 < 224" "192 \<le> r + 50" using div32 [of "r + 50" m] unfolding m_def by simp_all
    with 6 show ?thesis unfolding p_def mo_def dy_def
      by (cases lp; simp add: table_nth days_in_month_def is_leap_def; arith)
  next
    case 7
    then have "r + 50 < 256" "224 \<le> r + 50" using div32 [of "r + 50" m] unfolding m_def by simp_all
    with 7 show ?thesis unfolding p_def mo_def dy_def
      by (cases lp; simp add: table_nth days_in_month_def is_leap_def; arith)
  next
    case 8
    then have "r + 50 < 288" "256 \<le> r + 50" using div32 [of "r + 50" m] unfolding m_def by simp_all
    with 8 show ?thesis unfolding p_def mo_def dy_def
      by (cases lp; simp add: table_nth days_in_month_def is_leap_def; arith)
  next
    case 9
    then have "r + 50 < 320" "288 \<le> r + 50" using div32 [of "r + 50" m] unfolding m_def by simp_all
    with 9 show ?thesis unfolding p_def mo_def dy_def
      by (cases lp; simp add: table_nth days_in_month_def is_leap_def; arith)
  next
    case 10
    then have "r + 50 < 352" "320 \<le> r + 50" using div32 [of "r + 50" m] unfolding m_def by simp_all
    with 10 show ?thesis unfolding p_def mo_def dy_def
      by (cases lp; simp add: table_nth days_in_month_def is_leap_def; arith)
  next
    case 11
    then have "r + 50 < 384" "352 \<le> r + 50" using div32 [of "r + 50" m] unfolding m_def by simp_all
    with 11 show ?thesis unfolding p_def mo_def dy_def
      by (cases lp; simp add: table_nth days_in_month_def is_leap_def; arith)
  next
    case 12
    then have "r + 50 < 416" "384 \<le> r + 50" using div32 [of "r + 50" m] unfolding m_def by simp_all
    with 12 r show ?thesis unfolding p_def mo_def dy_def
      by (cases lp; simp add: table_nth days_in_month_def is_leap_def; arith)
  qed
qed


lemma days_before_year_decomp:
  assumes "b \<le> 3" and "c \<le> 24" and "e \<le> 3"
  shows "days_before_year (a * 400 + 1 + b * 100 + c * 4 + e)
         = 146097 * a + 36524 * b + 1461 * c + 365 * e"
proof -
  define z where "z = a * 400 + b * 100 + c * 4 + e"
  have "z = 4 * (100 * a + 25 * b + c) + e" by (simp add: z_def)
  then have "z div 4 = (100 * a + 25 * b + c) + e div 4" by (simp only: div_mult_self4)
  with assms have 4: "z div 4 = 100 * a + 25 * b + c" by simp
  have "z = 100 * (4 * a + b) + (4 * c + e)" by (simp add: z_def)
  then have "z div 100 = (4 * a + b) + (4 * c + e) div 100" by (simp only: div_mult_self4)
  with assms have 100: "z div 100 = 4 * a + b" by simp
  have "z = 400 * a + (100 * b + 4 * c + e)" by (simp add: z_def)
  then have "z div 400 = a + (100 * b + 4 * c + e) div 400" by (simp only: div_mult_self4)
  with assms have 400: "z div 400 = a" by simp
  have "days_before_year (z + 1) = z * 365 + z div 4 - z div 100 + z div 400"
    by (simp add: days_before_year_def)
  also have "\<dots> = 146097 * a + 36524 * b + 1461 * c + 365 * e"
    unfolding 4 100 400 by (simp add: z_def)
  finally show ?thesis by (simp add: z_def add.commute add.left_commute)
qed

lemma mod_full: "1 \<le> x \<Longrightarrow> x \<le> k \<Longrightarrow> (x mod k = 0 \<longleftrightarrow> x = k)" for x k :: nat
  by (cases "x = k") simp_all

lemma is_leap_decomp:
  assumes "b \<le> 3" and "c \<le> 24" and "e \<le> 3"
  shows "is_leap (a * 400 + 1 + b * 100 + c * 4 + e) \<longleftrightarrow> e = 3 \<and> (c \<noteq> 24 \<or> b = 3)"
proof -
  define y where "y = a * 400 + 1 + b * 100 + c * 4 + e"
  have "y = 4 * (100 * a + 25 * b + c) + (e + 1)" by (simp add: y_def)
  then have "y mod 4 = (e + 1) mod 4" by (simp only: mod_mult_self4)
  then have 4: "y mod 4 = 0 \<longleftrightarrow> e = 3"
    using assms(3) mod_full [of "e + 1" 4] by simp
  have "y = 100 * (4 * a + b) + (4 * c + e + 1)" by (simp add: y_def)
  then have "y mod 100 = (4 * c + e + 1) mod 100" by (simp only: mod_mult_self4)
  then have 100: "y mod 100 = 0 \<longleftrightarrow> 4 * c + e + 1 = 100"
    using assms mod_full [of "4 * c + e + 1" 100] by simp
  have "y = 400 * a + (100 * b + 4 * c + e + 1)" by (simp add: y_def)
  then have "y mod 400 = (100 * b + 4 * c + e + 1) mod 400" by (simp only: mod_mult_self4)
  then have 400: "y mod 400 = 0 \<longleftrightarrow> 100 * b + 4 * c + e + 1 = 400"
    using assms mod_full [of "100 * b + 4 * c + e + 1" 400] by simp
  have "is_leap y \<longleftrightarrow> e = 3 \<and> (4 * c + e + 1 \<noteq> 100 \<or> 100 * b + 4 * c + e + 1 = 400)"
    unfolding is_leap_def 4 100 400 ..
  also have "\<dots> \<longleftrightarrow> e = 3 \<and> (c \<noteq> 24 \<or> b = 3)"
    using assms by auto
  finally show ?thesis unfolding y_def .
qed


lemma fromordinal_correct:
  assumes n: "1 \<le> n"
  shows "toordinal (fromordinal n) = n
       \<and> 1 \<le> year (fromordinal n)
       \<and> (n \<le> max_ordinal \<longrightarrow> year (fromordinal n) \<le> 9999)
       \<and> 1 \<le> month (fromordinal n) \<and> month (fromordinal n) \<le> 12
       \<and> 1 \<le> day (fromordinal n)
       \<and> day (fromordinal n) \<le> days_in_month (year (fromordinal n)) (month (fromordinal n))"
proof -
  define n0 where "n0 = n - 1"
  define a where "a = n0 div 146097"
  define r400 where "r400 = n0 mod 146097"
  define b where "b = r400 div 36524"
  define r100 where "r100 = r400 mod 36524"
  define c where "c = r100 div 1461"
  define r4 where "r4 = r100 mod 1461"
  define e where "e = r4 div 365"
  define r where "r = r4 mod 365"
  define y where "y = a * 400 + 1 + b * 100 + c * 4 + e"
  define lp where "lp \<longleftrightarrow> e = 3 \<and> (c \<noteq> 24 \<or> b = 3)"
  define m where "m = (r + 50) div 32"
  define p where "p = days_before_month_table ! m + (if 2 < m \<and> lp then 1 else 0)"
  define mo where "mo = (if r < p then m - 1 else m)"
  define dy where "dy = (if r < p
                   then r - (p - (days_in_month 1 (m - 1) + (if m - 1 = 2 \<and> lp then 1 else 0))) + 1
                   else r - p + 1)"
  have nn: "n = n0 + 1" using n by (simp add: n0_def)
  have d1: "n0 = 146097 * a + r400" "r400 < 146097" by (simp_all add: a_def r400_def)
  have d2: "r400 = 36524 * b + r100" "r100 < 36524" by (simp_all add: b_def r100_def)
  have d3: "r100 = 1461 * c + r4" "r4 < 1461" by (simp_all add: c_def r4_def)
  have d4: "r4 = 365 * e + r" "r < 365" by (simp_all add: e_def r_def)
  have fo': "fromordinal n =
      (if e = 4 \<or> b = 4 then \<lparr>year = y - 1, month = 12, day = 31\<rparr>
       else if r < p
         then \<lparr>year = y, month = m - 1,
                day = r - (p - (days_in_month 1 (m - 1) + (if m - 1 = 2 \<and> lp then 1 else 0))) + 1\<rparr>
         else \<lparr>year = y, month = m, day = r - p + 1\<rparr>)"
    unfolding fromordinal_def Let_def p_def m_def lp_def y_def e_def r_def
      c_def r4_def b_def r100_def a_def r400_def n0_def ..
  have fo: "fromordinal n =
      (if e = 4 \<or> b = 4 then \<lparr>year = y - 1, month = 12, day = 31\<rparr>
       else \<lparr>year = y, month = mo, day = dy\<rparr>)"
    unfolding fo' mo_def dy_def by simp
  have md: "1 \<le> mo \<and> mo \<le> 12 \<and> 1 \<le> dy
       \<and> dy \<le> (if mo = 2 then (if lp then 29 else 28)
                  else if mo = 4 \<or> mo = 6 \<or> mo = 9 \<or> mo = 11 then 30 else 31)
       \<and> days_before_month_table ! mo + (if 2 < mo \<and> lp then 1 else 0) + dy = r + 1"
    unfolding mo_def dy_def p_def m_def by (rule month_day_estimate [OF d4(2)])
  show ?thesis
  proof (cases "b = 4")
    case True
    with d1 d2 have "r100 = 0" by linarith
    with d3 d4 have z: "c = 0" "e = 0" "r = 0" "r4 = 0" by simp_all
    from True z d1 d2 d3 d4 have n0: "n0 = 146097 * a + 146096" by simp
    have yy: "y - 1 = a * 400 + 1 + 3 * 100 + 24 * 4 + 3" using True z by (simp add: y_def)
    have f: "fromordinal n = \<lparr>year = y - 1, month = 12, day = 31\<rparr>"
      using True by (simp add: fo)
    have l: "is_leap (y - 1)" unfolding yy by (subst is_leap_decomp) simp_all
    have "days_before_year (y - 1) = 146097 * a + 36524 * 3 + 1461 * 24 + 365 * 3"
      unfolding yy by (rule days_before_year_decomp) simp_all
    then have "toordinal \<lparr>year = y - 1, month = 12, day = 31\<rparr> = n0 + 1"
      using l n0 by (simp add: toordinal_def days_before_month_def table_nth)
    then have t: "toordinal (fromordinal n) = n"
      unfolding f by (simp only: nn)
    have "146097 * a \<le> 3652058" if "n \<le> max_ordinal"
      using that n0 nn by (simp add: max_ordinal_def)
    then have "a \<le> 24" if "n \<le> max_ordinal" using that by fastforce
    moreover have "a \<noteq> 24" if "n \<le> max_ordinal"
      using that n0 nn by (auto simp: max_ordinal_def)
    ultimately have u: "y - 1 \<le> 9999" if "n \<le> max_ordinal"
      using that unfolding yy by fastforce
    have y1: "1 \<le> y - 1" unfolding yy by simp
    show ?thesis using t u y1 unfolding f by (simp add: days_in_month_def)
  next
    case False
    with d1 d2 have b: "b \<le> 3" by linarith
    show ?thesis
    proof (cases "e = 4")
      case True
      with d3 d4 have z: "r = 0" by linarith
      from True d2 d3 d4 have c: "c \<le> 23" by linarith
      have n0: "n0 = 146097 * a + 36524 * b + 1461 * c + 1460"
        using True z d1 d2 d3 d4 by simp
      have yy: "y - 1 = a * 400 + 1 + b * 100 + c * 4 + 3" using True by (simp add: y_def)
      have f: "fromordinal n = \<lparr>year = y - 1, month = 12, day = 31\<rparr>"
        using True by (simp add: fo)
      have l: "is_leap (y - 1)" unfolding yy using b c by (subst is_leap_decomp) simp_all
      have "days_before_year (y - 1) = 146097 * a + 36524 * b + 1461 * c + 365 * 3"
        unfolding yy using b c by (intro days_before_year_decomp) simp_all
      then have "toordinal \<lparr>year = y - 1, month = 12, day = 31\<rparr> = n0 + 1"
        using l n0 by (simp add: toordinal_def days_before_month_def table_nth)
      then have t: "toordinal (fromordinal n) = n"
        unfolding f by (simp only: nn)
      have u: "y - 1 \<le> 9999" if "n \<le> max_ordinal"
        using that n0 nn b c unfolding yy max_ordinal_def by linarith
      have y1: "1 \<le> y - 1" unfolding yy by simp
    show ?thesis using t u y1 unfolding f by (simp add: days_in_month_def)
    next
      case e4: False
      with d3 d4 have e: "e \<le> 3" by linarith
      from d2 d3 have c: "c \<le> 24" by linarith
      have n0: "n0 = 146097 * a + 36524 * b + 1461 * c + 365 * e + r"
        using d1 d2 d3 d4 by simp
      have f: "fromordinal n = \<lparr>year = y, month = mo, day = dy\<rparr>"
        using False e4 by (simp add: fo)
      have l: "is_leap y \<longleftrightarrow> lp" unfolding y_def lp_def using b c e by (rule is_leap_decomp)
      have dby: "days_before_year y = 146097 * a + 36524 * b + 1461 * c + 365 * e"
        unfolding y_def using b c e by (rule days_before_year_decomp)
      have "toordinal \<lparr>year = y, month = mo, day = dy\<rparr> = n0 + 1"
        using md by (simp add: toordinal_def days_before_month_def l dby n0)
      then have t: "toordinal (fromordinal n) = n"
        unfolding f by (simp only: nn)
      have u: "y \<le> 9999" if "n \<le> max_ordinal"
        using that n0 nn b c e unfolding y_def max_ordinal_def by linarith
      from md have "dy \<le> (if mo = 2 then (if lp then 29 else 28)
                  else if mo = 4 \<or> mo = 6 \<or> mo = 9 \<or> mo = 11 then 30 else 31)"
        by blast
      then have v: "dy \<le> days_in_month y mo" unfolding days_in_month_def l .
      have y1: "1 \<le> y" by (simp add: y_def)
      show ?thesis using t u v md y1 unfolding f by simp
    qed
  qed
qed

lemma toordinal_positive: "valid_date d \<Longrightarrow> 1 \<le> toordinal d"
  by (simp add: toordinal_def valid_date_def)

lemma fromordinal_valid:
  assumes "1 \<le> n" and "n \<le> max_ordinal"
  shows "valid_date (fromordinal n) \<and> toordinal (fromordinal n) = n"
  using fromordinal_correct [OF assms(1)] assms(2) by (simp add: valid_date_def)

lemma add_days_valid:
  assumes "valid_date d" and "toordinal d + n \<le> max_ordinal"
  shows "valid_date (fromordinal (toordinal d + n))
       \<and> toordinal (fromordinal (toordinal d + n)) = toordinal d + n"
proof -
  from toordinal_positive [OF assms(1)] have "1 \<le> toordinal d + n" by simp
  then show ?thesis using assms(2) by (rule fromordinal_valid)
qed

subsection \<open>The shortcuts\<close>

lemma add_days_in_calendar:
  assumes "toordinal d + n \<le> max_ordinal"
  shows "add_days d n = Inr (fromordinal (toordinal d + n))"
proof -
  from assms have "n \<le> max_ordinal" by simp
  then have "\<not> max_delta_days < n" by (simp add: max_ordinal_def max_delta_days_def)
  with assms show ?thesis by (simp add: add_days_def)
qed

lemma add_days_out_of_calendar:
  assumes "max_ordinal < toordinal d + n"
  shows "add_days d n = Inl OverflowError"
  using assms by (simp add: add_days_def)

lemma py_int_digits:
  assumes "ds \<noteq> []" and "list_all ascii_digit ds" and "length ds \<le> int_max_str_digits"
  shows "py_int ds = Inr (decimal_value ds)"
  using assms by (simp add: py_int_def)

lemma isdigit_digits:
  assumes "ds \<noteq> []" and "list_all ascii_digit ds"
  shows "isdigit ds"
  using assms by (auto simp: isdigit_def digit_char_def list_all_iff)

lemma shortcut_shape:
  "startswith (''+'' @ ds @ [u]) ''+''"
  "endswith (''+'' @ ds @ [u]) [v] \<longleftrightarrow> u = v"
  "slice_1_m1 (''+'' @ ds @ [u]) = ds"
  "''+'' @ ds @ [u] \<noteq> []"
  "''+'' @ ds @ [u] \<noteq> ''today''"
  "''+'' @ ds @ [u] \<noteq> ''tomorrow''"
  by (simp_all add: startswith_def endswith_def slice_1_m1_def)

lemma parse_due_date_days_step:
  assumes s: "lower (strip s) = ''+'' @ ds @ ''d''"
    and ds: "ds \<noteq> []" "list_all ascii_digit ds" "length ds \<le> int_max_str_digits"
  shows "parse_due_date today parse s
         = (case add_days today (decimal_value ds) of
              Inl e \<Rightarrow> Inl e | Inr d \<Rightarrow> Inr (isoformat d))"
  unfolding parse_due_date_def Let_def s
  by (simp only: shortcut_shape isdigit_digits [OF ds(1,2)] py_int_digits [OF ds]
      if_False if_True simp_thms sum.case)

lemma parse_due_date_days:
  assumes s: "lower (strip s) = ''+'' @ ds @ ''d''"
    and ds: "ds \<noteq> []" "list_all ascii_digit ds" "length ds \<le> int_max_str_digits"
    and r: "toordinal today + decimal_value ds \<le> max_ordinal"
  shows "parse_due_date today parse s
         = Inr (isoformat (fromordinal (toordinal today + decimal_value ds)))"
  unfolding parse_due_date_days_step [OF s ds]
  by (simp only: add_days_in_calendar [OF r] sum.case)

lemma parse_due_date_weeks:
  assumes s: "lower (strip s) = ''+'' @ ds @ ''w''"
    and ds: "ds \<noteq> []" "list_all ascii_digit ds" "length ds \<le> int_max_str_digits"
    and r: "toordinal today + 7 * decimal_value ds \<le> max_ordinal"
  shows "parse_due_date today parse s
         = Inr (isoformat (fromordinal (toordinal today + 7 * decimal_value ds)))"
proof -
  have w: "CHR ''w'' \<noteq> CHR ''d''" by simp
  show ?thesis
    unfolding parse_due_date_def Let_def s
    by (simp only: shortcut_shape isdigit_digits [OF ds(1,2)] py_int_digits [OF ds]
        add_days_in_calendar [OF r] if_False if_True simp_thms sum.case w)
qed

lemma parse_due_date_tomorrow:
  assumes s: "lower (strip s) = ''tomorrow''"
    and r: "toordinal today + 1 \<le> max_ordinal"
  shows "parse_due_date today parse s = Inr (isoformat (fromordinal (toordinal today + 1)))"
proof -
  have t: "''tomorrow'' \<noteq> []" "''tomorrow'' \<noteq> ''today''" by simp_all
  show ?thesis
    unfolding parse_due_date_def Let_def s
    by (simp only: t add_days_in_calendar [OF r] if_False if_True simp_thms sum.case)
qed

lemma parse_due_date_today:
  assumes s: "lower (strip s) = ''today''"
  shows "parse_due_date today parse s = Inr (isoformat today)"
  unfolding parse_due_date_def Let_def s by simp

lemma parse_due_date_empty:
  assumes s: "lower (strip s) = []"
  shows "parse_due_date today parse s = Inr []"
  unfolding parse_due_date_def Let_def s by simp

lemmas date_eval = fromordinal_def isoformat_def zero_pad_def show_nat.simps digit_chars_def
  days_before_month_table_def days_in_month_def is_leap_def Let_def toordinal_def
  days_before_year_def days_before_month_def day_2025_01_10_def max_ordinal_def

lemma ex_today: "lower (strip ''today'') = ''today''" by code_simp
lemma ex_tomorrow: "lower (strip ''tomorrow'') = ''tomorrow''" by code_simp
lemma ex_3d: "lower (strip ''+3d'') = ''+'' @ ''3'' @ ''d''" by code_simp
lemma ex_2w: "lower (strip ''+2w'') = ''+'' @ ''2'' @ ''w''" by code_simp
lemma ex_ord: "toordinal day_2025_01_10 = 739261" by (simp add: date_eval)
lemma ex_iso0: "isoformat day_2025_01_10 = ''2025-01-10''" by (simp add: date_eval)
lemma ex_iso1: "isoformat (fromordinal 739262) = ''2025-01-11''" by (simp add: date_eval)
lemma ex_iso3: "isoformat (fromordinal 739264) = ''2025-01-13''" by (simp add: date_eval)
lemma ex_iso14: "isoformat (fromordinal 739275) = ''2025-01-24''" by (simp add: date_eval)
lemma ex_dv3: "decimal_value ''3'' = 3" by code_simp
lemma ex_dv2: "decimal_value ''2'' = 2" by code_simp
lemma ex_dig3: "list_all ascii_digit ''3''" by code_simp
lemma ex_dig2: "list_all ascii_digit ''2''" by code_simp

text \<open>
  C3 (as amended). Let \<open>today\<close> be a date and \<open>s\<close> the input, trimmed and in lower case.
  The empty string gives the empty string; \<open>today\<close> gives today's date in ISO form;
  \<open>tomorrow\<close> gives the date one day after today; \<open>+Nd\<close> and \<open>+Nw\<close>, for N a string of
  at most 4300 of the digits 0-9, give the date N days or N weeks after today; each of the
  last three provided that date is no later than 9999-12-31, the last day of the calendar.
  The date \<open>k\<close> days after today is the date of the calendar whose ordinal is the ordinal
  of today plus \<open>k\<close>. With today = 2025-01-10 the inputs \<open>today\<close>, \<open>tomorrow\<close>, \<open>+3d\<close>,
  \<open>+2w\<close> give 2025-01-10, 2025-01-11, 2025-01-13 and 2025-01-24.
\<close>

theorem parse_due_date_shortcuts:
  assumes "valid_date today"
  shows
  "(lower (strip s) = [] \<longrightarrow> parse_due_date today parse s = Inr [])
 \<and> (lower (strip s) = ''today'' \<longrightarrow> parse_due_date today parse s = Inr (isoformat today))
 \<and> (lower (strip s) = ''tomorrow'' \<and> toordinal today + 1 \<le> max_ordinal \<longrightarrow>
      parse_due_date today parse s = Inr (isoformat (fromordinal (toordinal today + 1)))
    \<and> valid_date (fromordinal (toordinal today + 1))
    \<and> toordinal (fromordinal (toordinal today + 1)) = toordinal today + 1)
 \<and> (lower (strip s) = ''+'' @ ds @ ''d'' \<and> ds \<noteq> [] \<and> list_all ascii_digit ds
      \<and> length ds \<le> int_max_str_digits
      \<and> toordinal today + decimal_value ds \<le> max_ordinal \<longrightarrow>
      parse_due_date today parse s
        = Inr (isoformat (fromordinal (toordinal today + decimal_value ds)))
    \<and> valid_date (fromordinal (toordinal today + decimal_value ds))
    \<and> toordinal (fromordinal (toordinal today + decimal_value ds))
        = toordinal today + decimal_value ds)
 \<and> (lower (strip s) = ''+'' @ ds @ ''w'' \<and> ds \<noteq> [] \<and> list_all ascii_digit ds
      \<and> length ds \<le> int_max_str_digits
      \<and> toordinal today + 7 * decimal_value ds \<le> max_ordinal \<longrightarrow>
      parse_due_date today parse s
        = Inr (isoformat (fromordinal (toordinal today + 7 * decimal_value ds)))
    \<and> valid_date (fromordinal (toordinal today + 7 * decimal_value ds))
    \<and> toordinal (fromordinal (toordinal today + 7 * decimal_value ds))
        = toordinal today + 7 * decimal_value ds)
 \<and> toordinal \<lparr>year = 9999, month = 12, day = 31\<rparr> = max_ordinal
 \<and> parse_due_date day_2025_01_10 parse ''today'' = Inr ''2025-01-10''
 \<and> parse_due_date day_2025_01_10 parse ''tomorrow'' = Inr ''2025-01-11''
 \<and> parse_due_date day_2025_01_10 parse ''+3d'' = Inr ''2025-01-13''
 \<and> parse_due_date day_2025_01_10 parse ''+2w'' = Inr ''2025-01-24''"
proof (intro conjI impI)
  show "parse_due_date day_2025_01_10 parse ''today'' = Inr ''2025-01-10''"
    using parse_due_date_today [OF ex_today, of day_2025_01_10 parse] by (simp only: ex_iso0)
  show "parse_due_date day_2025_01_10 parse ''tomorrow'' = Inr ''2025-01-11''"
  proof -
    have "toordinal day_2025_01_10 + 1 \<le> max_ordinal" by (simp add: ex_ord max_ordinal_def)
    from parse_due_date_tomorrow [OF ex_tomorrow this, of parse]
    show ?thesis by (simp only: ex_ord) (simp add: ex_iso1)
  qed
  show "parse_due_date day_2025_01_10 parse ''+3d'' = Inr ''2025-01-13''"
  proof -
    have "toordinal day_2025_01_10 + decimal_value ''3'' \<le> max_ordinal"
      by (simp add: ex_ord ex_dv3 max_ordinal_def)
    from parse_due_date_days [OF ex_3d _ ex_dig3 _ this, of parse]
    show ?thesis by (simp add: ex_ord ex_dv3 int_max_str_digits_def ex_iso3)
  qed
  show "parse_due_date day_2025_01_10 parse ''+2w'' = Inr ''2025-01-24''"
  proof -
    have "toordinal day_2025_01_10 + 7 * decimal_value ''2'' \<le> max_ordinal"
      by (simp add: ex_ord ex_dv2 max_ordinal_def)
    from parse_due_date_weeks [OF ex_2w _ ex_dig2 _ this, of parse]
    show ?thesis by (simp add: ex_ord ex_dv2 int_max_str_digits_def ex_iso14)
  qed
  show "toordinal \<lparr>year = 9999, month = 12, day = 31\<rparr> = max_ordinal"
    by (simp add: date_eval table_nth)
next
  assume "lower (strip s) = []"
  then show "parse_due_date today parse s = Inr []" by (rule parse_due_date_empty)
next
  assume "lower (strip s) = ''today''"
  then show "parse_due_date today parse s = Inr (isoformat today)"
    by (rule parse_due_date_today)
next
  assume h: "lower (strip s) = ''tomorrow'' \<and> toordinal today + 1 \<le> max_ordinal"
  then show "parse_due_date today parse s = Inr (isoformat (fromordinal (toordinal today + 1)))"
    by (intro parse_due_date_tomorrow) blast+
  from h add_days_valid [OF assms, of 1]
  show "valid_date (fromordinal (toordinal today + 1))"
    and "toordinal (fromordinal (toordinal today + 1)) = toordinal today + 1"
    by blast+
next
  assume h: "lower (strip s) = ''+'' @ ds @ ''d'' \<and> ds \<noteq> [] \<and> list_all ascii_digit ds
      \<and> length ds \<le> int_max_str_digits
      \<and> toordinal today + decimal_value ds \<le> max_ordinal"
  then show "parse_due_date today parse s
        = Inr (isoformat (fromordinal (toordinal today + decimal_value ds)))"
    by (intro parse_due_date_days) blast+
  from h add_days_valid [OF assms, of "decimal_value ds"]
  show "valid_date (fromordinal (toordinal today + decimal_value ds))"
    and "toordinal (fromordinal (toordinal today + decimal_value ds))
        = toordinal today + decimal_value ds"
    by blast+
next
  assume h: "lower (strip s) = ''+'' @ ds @ ''w'' \<and> ds \<noteq> [] \<and> list_all ascii_digit ds
      \<and> length ds \<le> int_max_str_digits
      \<and> toordinal today + 7 * decimal_value ds \<le> max_ordinal"
  then show "parse_due_date today parse s
        = Inr (isoformat (fromordinal (toordinal today + 7 * decimal_value ds)))"
    by (intro parse_due_date_weeks) blast+
  from h add_days_valid [OF assms, of "7 * decimal_value ds"]
  show "valid_date (fromordinal (toordinal today + 7 * decimal_value ds))"
    and "toordinal (fromordinal (toordinal today + 7 * decimal_value ds))
        = toordinal today + 7 * decimal_value ds"
    by blast+
qed

theorem parse_due_date_shortcuts_witness:
  "valid_date day_2025_01_10
   \<and> lower (strip ''  +10W '') = ''+'' @ ''10'' @ ''w'' \<and> ''10'' \<noteq> [] \<and> list_all ascii_digit ''10''
   \<and> length ''10'' \<le> int_max_str_digits
   \<and> toordinal day_2025_01_10 + 7 * decimal_value ''10'' \<le> max_ordinal
   \<and> parse_due_date day_2025_01_10 Map.empty ''  +10W '' = Inr ''2025-03-21''"
proof -
  have 0: "valid_date day_2025_01_10"
    by (simp add: valid_date_def day_2025_01_10_def days_in_month_def)
  have 1: "lower (strip ''  +10W '') = ''+'' @ ''10'' @ ''w''" by code_simp
  have 2: "list_all ascii_digit ''10''" by code_simp
  have 3: "length ''10'' \<le> int_max_str_digits" by (simp add: int_max_str_digits_def)
  have 4: "decimal_value ''10'' = 10" by code_simp
  have 5: "toordinal day_2025_01_10 + 7 * decimal_value ''10'' \<le> max_ordinal"
    by (simp add: 4 ex_ord max_ordinal_def)
  have 6: "isoformat (fromordinal (toordinal day_2025_01_10 + 7 * decimal_value ''10''))
           = ''2025-03-21''"
    by (simp add: 4 ex_ord) (simp add: date_eval)
  from parse_due_date_shortcuts [OF 0, of "''  +10W ''" Map.empty "''10''"] 0 1 2 3 5 6
  show ?thesis by simp
qed

text \<open>
  C3 as stated fails: on 2025-01-10 the input \<open>+3000000d\<close> is a plus sign, digits and
  \<open>d\<close>, and \<open>parse_due_date\<close> raises OverflowError on it, the date being past the year
  9999.
\<close>

theorem parse_due_date_overflow_counterexample:
  "lower (strip ''+3000000d'') = ''+'' @ ''3000000'' @ ''d''
   \<and> list_all ascii_digit ''3000000''
   \<and> parse_due_date day_2025_01_10 Map.empty ''+3000000d'' = Inl OverflowError"
proof -
  have 1: "lower (strip ''+3000000d'') = ''+'' @ ''3000000'' @ ''d''" by code_simp
  have 2: "list_all ascii_digit ''3000000''" by code_simp
  have 3: "length ''3000000'' \<le> int_max_str_digits" by (simp add: int_max_str_digits_def)
  have 4: "decimal_value ''3000000'' = 3000000"
    by (simp add: decimal_value_def digit_value_def code_point_def)
  have 5: "max_ordinal < toordinal day_2025_01_10 + decimal_value ''3000000''"
    by (simp add: 4 ex_ord max_ordinal_def)
  have 6: "''3000000'' \<noteq> []" by simp
  have "parse_due_date day_2025_01_10 Map.empty ''+3000000d''
        = (case add_days day_2025_01_10 (decimal_value ''3000000'') of
              Inl e \<Rightarrow> Inl e | Inr d \<Rightarrow> Inr (isoformat d))"
    by (rule parse_due_date_days_step [OF 1 6 2 3])
  then have "parse_due_date day_2025_01_10 Map.empty ''+3000000d'' = Inl OverflowError"
    by (simp only: add_days_out_of_calendar [OF 5] sum.case)
  with 1 2 show ?thesis by simp
qed

lemma parse_due_date_otherwise:
  assumes "lower (strip s) \<noteq> []"
    and "lower (strip s) \<noteq> ''today''"
    and "lower (strip s) \<noteq> ''tomorrow''"
    and "\<not> (startswith (lower (strip s)) ''+'' \<and> endswith (lower (strip s)) ''d''
            \<and> isdigit (slice_1_m1 (lower (strip s))))"
    and "\<not> (startswith (lower (strip s)) ''+'' \<and> endswith (lower (strip s)) ''w''
            \<and> isdigit (slice_1_m1 (lower (strip s))))"
    and "parse (lower (strip s)) = None"
  shows "parse_due_date today parse s = Inr (lower (strip s))"
  unfolding parse_due_date_def Let_def
  by (simp only: assms if_False option.case)

text \<open>
  C4 (as amended). When the input, trimmed and in lower case, is none of the shortcuts
  and the date parser fails on it, \<open>parse_due_date\<close> returns it trimmed and in lower
  case, without raising; this is the trimmed input itself when that has no upper-case
  letter.
\<close>

theorem parse_due_date_passes_through:
  assumes "lower (strip s) \<noteq> []"
    and "lower (strip s) \<noteq> ''today''"
    and "lower (strip s) \<noteq> ''tomorrow''"
    and "\<not> (startswith (lower (strip s)) ''+'' \<and> endswith (lower (strip s)) ''d''
            \<and> isdigit (slice_1_m1 (lower (strip s))))"
    and "\<not> (startswith (lower (strip s)) ''+'' \<and> endswith (lower (strip s)) ''w''
            \<and> isdigit (slice_1_m1 (lower (strip s))))"
    and "parse (lower (strip s)) = None"
  shows "parse_due_date today parse s = Inr (lower (strip s))
       \<and> (lower (strip s) = strip s \<longrightarrow> parse_due_date today parse s = Inr (strip s))"
  using parse_due_date_otherwise [of s parse today, OF assms] by simp

lemma xyzzy_no_shortcut:
  "''xyzzy'' \<noteq> []" "''xyzzy'' \<noteq> ''today''" "''xyzzy'' \<noteq> ''tomorrow''"
  "\<not> (startswith ''xyzzy'' ''+'' \<and> endswith ''xyzzy'' ''d'' \<and> isdigit (slice_1_m1 ''xyzzy''))"
  "\<not> (startswith ''xyzzy'' ''+'' \<and> endswith ''xyzzy'' ''w'' \<and> isdigit (slice_1_m1 ''xyzzy''))"
  by (simp_all add: startswith_def)

theorem parse_due_date_passes_through_witness:
  "lower (strip ''  xyzzy '') = ''xyzzy''
   \<and> parse_due_date day_2025_01_10 Map.empty ''  xyzzy '' = Inr ''xyzzy''"
proof -
  have 1: "lower (strip ''  xyzzy '') = ''xyzzy''" by code_simp
  have 2: "Map.empty (lower (strip ''  xyzzy '')) = (None :: date option)" by simp
  from parse_due_date_passes_through [of "''  xyzzy ''" Map.empty day_2025_01_10,
      unfolded 1, OF xyzzy_no_shortcut] 1
  show ?thesis by simp
qed

text \<open>
  C4 as stated fails: \<open>XYZZY\<close> is no shortcut, the parser fails on it, and the result is
  \<open>xyzzy\<close>, not the input.
\<close>

theorem parse_due_date_lowercases_counterexample:
  "strip ''XYZZY'' = ''XYZZY''
   \<and> parse_due_date day_2025_01_10 Map.empty ''XYZZY'' = Inr ''xyzzy''"
proof -
  have 0: "strip ''XYZZY'' = ''XYZZY''" by code_simp
  have 1: "lower (strip ''XYZZY'') = ''xyzzy''" by code_simp
  from parse_due_date_otherwise [of "''XYZZY''" Map.empty day_2025_01_10,
      unfolded 1, OF xyzzy_no_shortcut] 0
  show ?thesis by simp
qed

section \<open>The progress percentage in floating point\<close>

lemma fifty_stats: "get_stats fifty_todos NoClause = (50, 29)"
  by (simp add: get_stats_def fifty_todos_def filter_map comp_def plain_todo_def)

text \<open>
  C8. The claim is that the percentage is \<open>\<lfloor>100 * done / total\<rfloor>\<close>. With 29 of 50 rows
  done, as in the table \<open>fifty_todos\<close>, that is 58, but \<open>int((29 / 50) * 100)\<close> is 57: the
  quotient 0.58 is not a binary fraction, and the product of the nearest binary64 number
  with 100 rounds to 57.99999999999999. With 1 of 3 done the result is 33, as the claim says.
\<close>

theorem progress_rounds_below_floor:
  "get_stats fifty_todos NoClause = (50, 29) \<and> dashboard_progress fifty_todos NoClause = 57
   \<and> progress 50 29 = 57 \<and> (29 * 100) div 50 = (58 :: nat)
   \<and> progress 3 1 = 33 \<and> progress 0 0 = 0"
proof -
  have "progress 50 29 = 57 \<and> progress 3 1 = 33 \<and> progress 0 0 = 0"
    by (simp add: progress_def float_int_def float_mul_def float_div_def round_binary64_def
      floor_log2_def round_half_even_def scale2_def bit_length.simps Let_def)
  then show ?thesis by (simp add: dashboard_progress_def fifty_stats)
qed

end
